theory Spec2Isabelle
  imports Complex_Main "HOL-Library.Sublist"
begin

section \<open>The rendered markup\<close>

text \<open>
  The scraper reads the page through BeautifulSoup. A parsed page is a tree of tags
  (name, attribute dictionary, children) and strings. Every string of the tree is an
  object of \<open>NavigableString\<close> or of one of its subclasses: the parser makes a comment
  a \<open>Comment\<close>, the content of a \<open>script\<close>, \<open>style\<close> or \<open>template\<close> element a
  \<open>Script\<close>, \<open>Stylesheet\<close> or \<open>TemplateString\<close>, and so on. The class is part of
  the tree. The attributes the scraper reads (\<open>datetime\<close>, \<open>href\<close>, \<open>data-testid\<close>,
  \<open>role\<close>) are single-valued, so an attribute dictionary is an association list from
  names to strings, read with \<open>map_of\<close>.

  A Python string is a sequence of Unicode code points; it is represented here by the
  bytes of its UTF-8 encoding, so that \<open>string\<close> literals stand for themselves.
  Equality, concatenation and splitting at \<open>/\<close> are the same on the bytes as on the
  code points; the operations that look at single characters decode first.
\<close>

type_synonym attrs = "(string \<times> string) list"

datatype string_class =
  NavigableString | CData | Comment | ProcessingInstruction | Declaration | Doctype
  | Script | Stylesheet | TemplateString | RubyTextString | RubyParenthesisString

datatype node = Str string_class string | Tag string attrs "node list"

text \<open>
  \<open>descendants up n\<close> lists the proper descendants of \<open>n\<close> in document order (the order
  in which \<open>find\<close> and \<open>find_all\<close> visit them), each with the attribute dictionaries
  of its ancestors, nearest first; \<open>up\<close> holds those of the ancestors of \<open>n\<close> itself.
\<close>

fun descendants :: "attrs list \<Rightarrow> node \<Rightarrow> (attrs list \<times> node) list" where
  "descendants up (Str k s) = []"
| "descendants up (Tag n a cs) =
     concat (map (\<lambda>c. (a # up, c) # descendants (a # up) c) cs)"

fun is_tag :: "string \<Rightarrow> node \<Rightarrow> bool" where
  "is_tag nm (Str k s) = False"
| "is_tag nm (Tag n a cs) = (n = nm)"

fun has_attr :: "string \<Rightarrow> string \<Rightarrow> node \<Rightarrow> bool" where
  "has_attr k v (Str c s) = False"
| "has_attr k v (Tag n a cs) = (map_of a k = Some v)"

text \<open>
  \<open>get_text()\<close> of a tag that is not itself a container of special strings (the
  scraper calls it on \<open>div\<close> elements only): the strings below the tag whose class is
  exactly \<open>NavigableString\<close> or \<open>CData\<close>, concatenated in document order. Comments and
  the contents of \<open>script\<close>, \<open>style\<close> and \<open>template\<close> elements are left out.
\<close>

fun get_text :: "node \<Rightarrow> string" where
  "get_text (Str k s) = (if k = NavigableString \<or> k = CData then s else [])"
| "get_text (Tag n a cs) = concat (map get_text cs)"

datatype py_error = KeyError string | ValueError string

text \<open>\<open>tag[key]\<close> raises \<open>KeyError\<close> when the tag has no such attribute.\<close>

fun getitem :: "node \<Rightarrow> string \<Rightarrow> py_error + string" where
  "getitem (Str c s) k = Inl (KeyError k)"
| "getitem (Tag n a cs) k = (case map_of a k of None \<Rightarrow> Inl (KeyError k) | Some v \<Rightarrow> Inr v)"

text \<open>
  A fragment is one \<open>article\<close> element of the page together with the attribute
  dictionaries of the elements around it (nearest first; the document object itself has
  no attributes and is left out).
\<close>

record fragment =
  outer :: "attrs list"
  article :: node

section \<open>Strings and regular expressions\<close>

text \<open>
  Decoding UTF-8 into code points, one byte at a time: \<open>acc\<close> holds the bits read so
  far of a character of several bytes, \<open>need\<close> the number of bytes it still lacks.
  Encoding is the inverse on the encodings of code points.
\<close>

fun decode_from :: "nat \<Rightarrow> nat \<Rightarrow> string \<Rightarrow> nat list" where
  "decode_from acc need [] = []"
| "decode_from acc need (b # bs) =
     (if need = 0 then
        (if of_char b < (128::nat) then of_char b # decode_from 0 0 bs
         else if of_char b < (224::nat) then decode_from (of_char b mod 32) 1 bs
         else if of_char b < (240::nat) then decode_from (of_char b mod 16) 2 bs
         else decode_from (of_char b mod 8) 3 bs)
      else if need = 1 then (acc * 64 + of_char b mod 64) # decode_from 0 0 bs
      else decode_from (acc * 64 + of_char b mod 64) (need - 1) bs)"

definition utf8_decode :: "string \<Rightarrow> nat list" where
  "utf8_decode bs = decode_from 0 0 bs"

definition encode_point :: "nat \<Rightarrow> string" where
  "encode_point c =
     (if c < 128 then [char_of c]
      else if c < 2048 then [char_of (192 + c div 64), char_of (128 + c mod 64)]
      else if c < 65536 then
        [char_of (224 + c div 4096), char_of (128 + c div 64 mod 64), char_of (128 + c mod 64)]
      else
        [char_of (240 + c div 262144), char_of (128 + c div 4096 mod 64),
         char_of (128 + c div 64 mod 64), char_of (128 + c mod 64)])"

definition utf8_encode :: "nat list \<Rightarrow> string" where
  "utf8_encode cs = concat (map encode_point cs)"

text \<open>
  The character classes, from the character database of Unicode 14.0 (the one of
  CPython 3.11). \<open>\s\<close> and \<open>str.strip\<close> take the same characters for white space.
  \<open>\d\<close> matches the characters of category Nd, which \<open>int\<close> reads by their decimal
  value; they come in runs of ten in the order of their values, and \<open>digit_zeros\<close>
  lists the first of each run.
\<close>

definition space_points :: "nat list" where
  "space_points =
     [9, 10, 11, 12, 13, 28, 29, 30, 31, 32, 133, 160, 5760, 8192, 8193, 8194, 8195, 8196,
      8197, 8198, 8199, 8200, 8201, 8202, 8232, 8233, 8239, 8287, 12288]"

definition is_space :: "nat \<Rightarrow> bool" where
  "is_space c \<longleftrightarrow> c \<in> set space_points"

definition digit_zeros :: "nat list" where
  "digit_zeros =
     [48, 1632, 1776, 1984, 2406, 2534, 2662, 2790, 2918, 3046, 3174, 3302, 3430, 3558,
      3664, 3792, 3872, 4160, 4240, 6112, 6160, 6470, 6608, 6784, 6800, 6992, 7088, 7232,
      7248, 42528, 43216, 43264, 43472, 43504, 43600, 44016, 65296, 66720, 68912, 69734,
      69872, 69942, 70096, 70384, 70736, 70864, 71248, 71360, 71472, 71904, 72016, 72784,
      73040, 73120, 92768, 92864, 93008, 120782, 120792, 120802, 120812, 120822, 123200,
      123632, 125264, 130032]"

definition decimal :: "nat \<Rightarrow> nat option" where
  "decimal c =
     (case find (\<lambda>z. z \<le> c \<and> c < z + 10) digit_zeros of
        None \<Rightarrow> None
      | Some z \<Rightarrow> Some (c - z))"

definition is_digit :: "nat \<Rightarrow> bool" where
  "is_digit c \<longleftrightarrow> decimal c \<noteq> None"

text \<open>\<open>re.sub(r'\s+', ' ', text)\<close>: every maximal run of white space becomes one space.\<close>

function sub_spaces :: "nat list \<Rightarrow> nat list" where
  "sub_spaces [] = []"
| "sub_spaces (c # cs) =
     (if is_space c then 32 # sub_spaces (dropWhile is_space cs)
      else c # sub_spaces cs)"
  by pat_completeness auto
termination
  by (relation "measure length") (auto simp: length_dropWhile_le less_Suc_eq_le)

definition strip :: "nat list \<Rightarrow> nat list" where
  "strip s = rev (dropWhile is_space (rev (dropWhile is_space s)))"

definition clean_tweet_text :: "string \<Rightarrow> string" where
  "clean_tweet_text t = utf8_encode (strip (sub_spaces (utf8_decode t)))"

text \<open>\<open>s.split(d)\<close> for a one-character separator: never empty, \<open>[-1]\<close> is \<open>last\<close>.\<close>

fun split :: "char \<Rightarrow> string \<Rightarrow> string list" where
  "split d [] = [[]]"
| "split d (c # cs) =
     (if c = d then [] # split d cs
      else (case split d cs of [] \<Rightarrow> [[c]] | s # ss \<Rightarrow> (c # s) # ss))"

text \<open>
  \<open>re.search(r'\d+', text)\<close>: the search tries each position from the left; at the
  first position where a digit stands, \<open>\d+\<close> takes as many digits as follow.
  \<open>None\<close> when no position matches.
\<close>

fun re_search_digits :: "nat list \<Rightarrow> nat list option" where
  "re_search_digits [] = None"
| "re_search_digits (c # cs) =
     (if is_digit c then Some (takeWhile is_digit (c # cs)) else re_search_digits cs)"

text \<open>
  \<open>int(s)\<close> on a string of decimal digits. Python integers are unbounded, but the
  conversion raises \<open>ValueError\<close> for a string of more digits than the interpreter's
  limit, 4300 unless it is configured otherwise (the scraper does not configure it).
\<close>

definition digit_val :: "nat \<Rightarrow> int" where
  "digit_val c = (case decimal c of None \<Rightarrow> 0 | Some d \<Rightarrow> int d)"

definition int_of_digits :: "nat list \<Rightarrow> int" where
  "int_of_digits ds = foldl (\<lambda>acc c. 10 * acc + digit_val c) 0 ds"

definition int_max_str_digits :: nat where
  "int_max_str_digits = 4300"

definition py_int :: "nat list \<Rightarrow> py_error + int" where
  "py_int ds =
     (if int_max_str_digits < length ds
      then Inl (ValueError ''Exceeds the limit for integer string conversion'')
      else Inr (int_of_digits ds))"

section \<open>The record extractor\<close>

record tweet_data =
  tweet_id :: string
  timestamp :: string
  tweet_text :: string
  replies :: int
  retweets :: int
  likes :: int
  url :: string

text \<open>\<open>find\<close> and \<open>find_all\<close> for a tag name, over the descendants of a fragment.\<close>

definition find_all :: "(node \<Rightarrow> bool) \<Rightarrow> attrs list \<Rightarrow> node \<Rightarrow> (attrs list \<times> node) list" where
  "find_all p up n = filter (\<lambda>(u, d). p d) (descendants up n)"

definition find_first :: "(node \<Rightarrow> bool) \<Rightarrow> attrs list \<Rightarrow> node \<Rightarrow> (attrs list \<times> node) option" where
  "find_first p up n = (case find_all p up n of [] \<Rightarrow> None | x # xs \<Rightarrow> Some x)"

text \<open>
  The statistics: the \<open>div\<close> descendants of the first \<open>div\<close> with \<open>role="group"\<close>,
  in document order; the empty list when there is no such group.
\<close>

definition stats_elements :: "fragment \<Rightarrow> node list" where
  "stats_elements f =
     (case find_all (\<lambda>d. is_tag ''div'' d \<and> has_attr ''role'' ''group'' d) (outer f) (article f) of
        [] \<Rightarrow> []
      | (u, g) # rest \<Rightarrow> map snd (find_all (is_tag ''div'') u g))"

text \<open>\<open>int(stat_value.group()) if stat_value else 0\<close>, for the text of one element.\<close>

definition stat_value :: "string \<Rightarrow> py_error + int" where
  "stat_value stat_text =
     (case re_search_digits (utf8_decode stat_text) of None \<Rightarrow> Inr 0 | Some m \<Rightarrow> py_int m)"

text \<open>
  The loop over \<open>enumerate(['replies', 'retweets', 'likes'])\<close> fills the dictionary
  \<open>stats\<close> for the positions that exist, and ends at the first \<open>int\<close> that raises.
\<close>

definition stats_dict :: "node list \<Rightarrow> py_error + (string \<rightharpoonup> int)" where
  "stats_dict els =
     foldl (\<lambda>acc (i, stat_type).
              case acc of
                Inl e \<Rightarrow> Inl e
              | Inr stats \<Rightarrow>
                  if i < length els then
                    (case stat_value (get_text (els ! i)) of
                       Inl e \<Rightarrow> Inl e
                     | Inr n \<Rightarrow> Inr (stats(stat_type \<mapsto> n)))
                  else Inr stats)
           (Inr Map.empty) (enumerate 0 [''replies'', ''retweets'', ''likes''])"

definition dict_get :: "(string \<rightharpoonup> int) \<Rightarrow> string \<Rightarrow> int \<Rightarrow> int" where
  "dict_get d k dflt = (case d k of None \<Rightarrow> dflt | Some v \<Rightarrow> v)"

text \<open>\<open>article.find('time')\<close> and \<open>article.find('div', {'data-testid': 'tweetText'})\<close>.\<close>

definition time_element :: "fragment \<Rightarrow> (attrs list \<times> node) option" where
  "time_element f = find_first (is_tag ''time'') (outer f) (article f)"

definition tweet_text_div :: "fragment \<Rightarrow> (attrs list \<times> node) option" where
  "tweet_text_div f =
     find_first (\<lambda>d. is_tag ''div'' d \<and> has_attr ''data-testid'' ''tweetText'' d)
       (outer f) (article f)"

text \<open>
  The body of the \<open>try\<close> block of \<open>extract_tweet_data\<close>, in the order of its
  statements. Two of them can raise: \<open>time_element['datetime']\<close> and the \<open>int\<close> of
  the statistics. The parent of the \<open>time\<close> element is the article or a tag inside
  it; the parent of that is a tag, or the document object, whose \<open>get('href')\<close> is
  \<open>None\<close>.
\<close>

definition extract_tweet_data_try :: "fragment \<Rightarrow> string \<Rightarrow> py_error + tweet_data" where
  "extract_tweet_data_try f username =
     (case (case time_element f of
              None \<Rightarrow> Inr ''Unknown''
            | Some (up, t) \<Rightarrow> getitem t ''datetime'') of
        Inl e \<Rightarrow> Inl e
      | Inr ts \<Rightarrow>
         (let tid =
                (case time_element f of
                   None \<Rightarrow> ''Unknown''
                 | Some (up, t) \<Rightarrow>
                     (let tweet_link = (case up of p # g # anc \<Rightarrow> map_of g ''href'' | _ \<Rightarrow> None) in
                      case tweet_link of
                        None \<Rightarrow> ''Unknown''
                      | Some l \<Rightarrow> if l \<noteq> [] then last (split CHR ''/'' l) else ''Unknown''));
              txt =
                (case tweet_text_div f of
                   None \<Rightarrow> ''No text found''
                 | Some (up, d) \<Rightarrow> clean_tweet_text (get_text d))
          in case stats_dict (stats_elements f) of
               Inl e \<Rightarrow> Inl e
             | Inr stats \<Rightarrow>
                 Inr \<lparr>tweet_id = tid, timestamp = ts, tweet_text = txt,
                      replies = dict_get stats ''replies'' 0,
                      retweets = dict_get stats ''retweets'' 0,
                      likes = dict_get stats ''likes'' 0,
                      url = (if tid \<noteq> ''Unknown''
                             then ''https://twitter.com/'' @ username @ ''/status/'' @ tid
                             else ''Unknown'')\<rparr>))"

text \<open>\<open>except Exception\<close>: any error of the body becomes the result \<open>None\<close>.\<close>

definition extract_tweet_data :: "fragment \<Rightarrow> string \<Rightarrow> tweet_data option" where
  "extract_tweet_data f username =
     (case extract_tweet_data_try f username of Inl e \<Rightarrow> None | Inr d \<Rightarrow> Some d)"

section \<open>The scroll, extract and deduplicate loop\<close>

text \<open>
  The variables of \<open>scrape_tweets\<close> that the loop over the articles writes: the list
  \<open>tweets\<close> and the two sets of identifiers and texts already seen.
\<close>

record collected =
  tweets :: "tweet_data list"
  unique_tweet_ids :: "string set"
  unique_tweet_texts :: "string set"

text \<open>The state at the head of the \<open>while\<close> loop: the above and the two counters.\<close>

record session =
  seen :: collected
  scroll_count :: int
  consecutive_no_new_tweets :: int

definition init_collected :: collected where
  "init_collected = \<lparr>tweets = [], unique_tweet_ids = {}, unique_tweet_texts = {}\<rparr>"

definition init_session :: session where
  "init_session = \<lparr>seen = init_collected, scroll_count = 0, consecutive_no_new_tweets = 0\<rparr>"

text \<open>
  One pass of the body of \<open>for article in articles\<close>, on the collected records and the
  counter \<open>new_tweets_found\<close>; each \<open>continue\<close> returns both unchanged.
\<close>

definition process_article ::
  "string \<Rightarrow> collected \<times> int \<Rightarrow> fragment \<Rightarrow> collected \<times> int" where
  "process_article username st art =
     (case st of (c, new_tweets_found) \<Rightarrow>
        (case extract_tweet_data art username of
           None \<Rightarrow> (c, new_tweets_found)
         | Some td \<Rightarrow>
             if tweet_id td \<noteq> ''Unknown'' \<and> tweet_id td \<in> unique_tweet_ids c
             then (c, new_tweets_found)
             else if tweet_text td \<in> unique_tweet_texts c
             then (c, new_tweets_found)
             else (\<lparr>tweets = tweets c @ [td],
                    unique_tweet_ids =
                      (if tweet_id td \<noteq> ''Unknown''
                       then insert (tweet_id td) (unique_tweet_ids c)
                       else unique_tweet_ids c),
                    unique_tweet_texts = insert (tweet_text td) (unique_tweet_texts c)\<rparr>,
                   new_tweets_found + 1)))"

definition articles_loop :: "string \<Rightarrow> collected \<Rightarrow> fragment list \<Rightarrow> collected \<times> int" where
  "articles_loop username c articles = foldl (process_article username) (c, 0) articles"

text \<open>
  What the loop takes from outside: whether the timeline appeared before the timeout of
  the initial wait, the articles of the page parsed in the cycle that starts with a given
  \<open>scroll_count\<close>, the number in \<open>[0, 1)\<close> that \<open>random.random()\<close> returns
  inside \<open>random.uniform\<close> in that cycle, and the rounding of the machine: Python's
  floats are doubles, every arithmetic operation on them gives the exact result rounded
  to a double, and \<open>round_double\<close> is that rounding.
\<close>

record browser =
  timeline_loaded :: bool
  page_articles :: "int \<Rightarrow> fragment list"
  rnd :: "int \<Rightarrow> real"
  round_double :: "real \<Rightarrow> real"

text \<open>
  \<open>random.uniform(a, b)\<close> is \<open>a + (b - a) * random()\<close>, and the argument of
  \<open>time.sleep\<close> after the scroll to the bottom of the page is
  \<open>scroll_pause_time + random.uniform(-scroll_variation, scroll_variation)\<close>: first
  in exact arithmetic, then as the interpreter computes them, with every operation
  rounded (the negation of a double is exact).
\<close>

definition uniform :: "real \<Rightarrow> real \<Rightarrow> real \<Rightarrow> real" where
  "uniform a b r = a + (b - a) * r"

definition pause_duration :: "real \<Rightarrow> real \<Rightarrow> real \<Rightarrow> real" where
  "pause_duration scroll_pause_time scroll_variation r =
     scroll_pause_time + uniform (- scroll_variation) scroll_variation r"

definition float_uniform :: "(real \<Rightarrow> real) \<Rightarrow> real \<Rightarrow> real \<Rightarrow> real \<Rightarrow> real" where
  "float_uniform rd a b r = rd (a + rd (rd (b - a) * r))"

definition sleep_length :: "(real \<Rightarrow> real) \<Rightarrow> real \<Rightarrow> real \<Rightarrow> real \<Rightarrow> real" where
  "sleep_length rd scroll_pause_time scroll_variation r =
     rd (scroll_pause_time + float_uniform rd (- scroll_variation) scroll_variation r)"

text \<open>\<open>time.sleep\<close> raises \<open>ValueError\<close> on a negative length.\<close>

definition time_sleep :: "real \<Rightarrow> py_error + unit" where
  "time_sleep secs =
     (if secs < 0 then Inl (ValueError ''sleep length must be non-negative'') else Inr ())"

text \<open>
  One cycle, from the head of the \<open>while\<close> loop to the update of
  \<open>consecutive_no_new_tweets\<close>. The random scroll of every tenth cycle and its sleep of
  1.0 to 3.0 seconds write no variable of the loop and cannot raise in \<open>time.sleep\<close>;
  what they do to the page is part of \<open>page_articles\<close>.
\<close>

definition scroll_cycle ::
  "browser \<Rightarrow> string \<Rightarrow> real \<Rightarrow> real \<Rightarrow> session \<Rightarrow> py_error + session" where
  "scroll_cycle env username scroll_pause_time scroll_variation s =
     (case articles_loop username (seen s) (page_articles env (scroll_count s)) of
        (c, new_tweets_found) \<Rightarrow>
          (case time_sleep (sleep_length (round_double env) scroll_pause_time scroll_variation
                              (rnd env (scroll_count s))) of
             Inl e \<Rightarrow> Inl e
           | Inr u \<Rightarrow>
               Inr \<lparr>seen = c,
                    scroll_count = scroll_count s + 1,
                    consecutive_no_new_tweets =
                      (if new_tweets_found = 0 then consecutive_no_new_tweets s + 1 else 0)\<rparr>))"

text \<open>
  The \<open>while\<close> loop: it is left when the condition fails, by the \<open>break\<close> after five
  cycles without a new record, or by an exception.
\<close>

function scroll_loop ::
  "browser \<Rightarrow> string \<Rightarrow> int \<Rightarrow> real \<Rightarrow> real \<Rightarrow> session \<Rightarrow> py_error + session" where
  "scroll_loop env username max_scrolls scroll_pause_time scroll_variation s =
     (if scroll_count s < max_scrolls then
        (case scroll_cycle env username scroll_pause_time scroll_variation s of
           Inl e \<Rightarrow> Inl e
         | Inr s' \<Rightarrow>
             if consecutive_no_new_tweets s' \<ge> 5 then Inr s'
             else scroll_loop env username max_scrolls scroll_pause_time scroll_variation s')
      else Inr s)"
  by pat_completeness auto
termination
  by (relation "measure (\<lambda>(env, username, max_scrolls, p, v, s). nat (max_scrolls - scroll_count s))")
     (auto simp: scroll_cycle_def split: prod.splits sum.splits)

declare scroll_loop.simps [simp del]

text \<open>
  \<open>scrape_tweets\<close>: the empty list when the initial wait times out, else the list
  collected by the loop. The search query only chooses the address that is loaded.
\<close>

definition scrape_tweets ::
  "browser \<Rightarrow> string \<Rightarrow> int \<Rightarrow> real \<Rightarrow> real \<Rightarrow> py_error + tweet_data list" where
  "scrape_tweets env username max_scrolls scroll_pause_time scroll_variation =
     (if \<not> timeline_loaded env then Inr []
      else (case scroll_loop env username max_scrolls scroll_pause_time scroll_variation
                   init_session of
              Inl e \<Rightarrow> Inl e
            | Inr s \<Rightarrow> Inr (tweets (seen s))))"

text \<open>
  The states in which the loop evaluates its condition: \<open>loop_head \<dots> n s\<close> says that
  \<open>s\<close> is the state after \<open>n\<close> complete cycles that did not end in the \<open>break\<close>.
\<close>

inductive loop_head ::
  "browser \<Rightarrow> string \<Rightarrow> int \<Rightarrow> real \<Rightarrow> real \<Rightarrow> nat \<Rightarrow> session \<Rightarrow> bool"
  for env username max_scrolls scroll_pause_time scroll_variation where
  start: "loop_head env username max_scrolls scroll_pause_time scroll_variation 0 init_session"
| cycle: "loop_head env username max_scrolls scroll_pause_time scroll_variation n s \<Longrightarrow>
     scroll_count s < max_scrolls \<Longrightarrow>
     scroll_cycle env username scroll_pause_time scroll_variation s = Inr s' \<Longrightarrow>
     \<not> consecutive_no_new_tweets s' \<ge> 5 \<Longrightarrow>
     loop_head env username max_scrolls scroll_pause_time scroll_variation (Suc n) s'"

section \<open>Notions used in the statements\<close>

text \<open>
  A fragment is rejected in a state when the loop body reaches one of its three
  \<open>continue\<close> statements: no record, a known identifier already seen, or a text
  already seen.
\<close>

definition rejected :: "string \<Rightarrow> collected \<Rightarrow> fragment \<Rightarrow> bool" where
  "rejected username c art =
     (case extract_tweet_data art username of
        None \<Rightarrow> True
      | Some td \<Rightarrow> (tweet_id td \<noteq> ''Unknown'' \<and> tweet_id td \<in> unique_tweet_ids c)
                   \<or> tweet_text td \<in> unique_tweet_texts c)"

text \<open>
  The two sets hold exactly the texts and the known identifiers of the collected
  records, and no text and no known identifier occurs twice among them.
\<close>

definition index_ok :: "collected \<Rightarrow> bool" where
  "index_ok c \<longleftrightarrow>
     unique_tweet_texts c = tweet_text ` set (tweets c) \<and>
     unique_tweet_ids c = {i \<in> tweet_id ` set (tweets c). i \<noteq> ''Unknown''} \<and>
     distinct (map tweet_text (tweets c)) \<and>
     distinct (filter (\<lambda>i. i \<noteq> ''Unknown'') (map tweet_id (tweets c)))"

text \<open>
  The counter extraction in the words of the specification: the first maximal run of
  decimal digits among the characters of a text, its value in positional notation, and
  0 for a text without digits.
\<close>

definition spec_first_digit_run :: "string \<Rightarrow> nat list" where
  "spec_first_digit_run t =
     takeWhile is_digit (dropWhile (\<lambda>c. \<not> is_digit c) (utf8_decode t))"

definition spec_decimal_value :: "nat list \<Rightarrow> int" where
  "spec_decimal_value ds = (\<Sum>i<length ds. digit_val (ds ! i) * 10 ^ (length ds - 1 - i))"

definition spec_count :: "string \<Rightarrow> int" where
  "spec_count t =
     (if \<exists>c \<in> set (utf8_decode t). is_digit c
      then spec_decimal_value (spec_first_digit_run t) else 0)"

text \<open>
  What the loop over the statistics computes for position \<open>i\<close>: the value of the
  element there, and nothing (so that \<open>stats.get(key, 0)\<close> gives 0) when there is none.
\<close>

definition stat_at :: "node list \<Rightarrow> nat \<Rightarrow> py_error + int" where
  "stat_at els i = (if i < length els then stat_value (get_text (els ! i)) else Inr 0)"

text \<open>The records collected by the article loops of the first \<open>n\<close> cycles.\<close>

fun collected_after :: "browser \<Rightarrow> string \<Rightarrow> nat \<Rightarrow> collected" where
  "collected_after env username 0 = init_collected"
| "collected_after env username (Suc n) =
     fst (articles_loop username (collected_after env username n) (page_articles env (int n)))"

text \<open>
  \<open>k\<close> cycles one after the other, with no test of the loop condition and no
  \<open>break\<close> between them; an exception in one of them ends the run.
\<close>

fun scroll_cycles ::
  "browser \<Rightarrow> string \<Rightarrow> real \<Rightarrow> real \<Rightarrow> nat \<Rightarrow> session \<Rightarrow> py_error + session" where
  "scroll_cycles env username scroll_pause_time scroll_variation 0 s = Inr s"
| "scroll_cycles env username scroll_pause_time scroll_variation (Suc k) s =
     (case scroll_cycle env username scroll_pause_time scroll_variation s of
        Inl e \<Rightarrow> Inl e
      | Inr s' \<Rightarrow> scroll_cycles env username scroll_pause_time scroll_variation k s')"

subsection \<open>Example markup\<close>

text \<open>
  A post whose \<open>time\<close> element sits in a \<open>span\<close> inside a link, followed by the given
  nodes; a post that is only a text container; a post whose \<open>time\<close> element has no
  \<open>datetime\<close> attribute; a post that is only a statistics group with one element.
\<close>

definition linked_post :: "string \<Rightarrow> node list \<Rightarrow> fragment" where
  "linked_post href body =
     \<lparr>outer = [],
      article = Tag ''article'' []
        (Tag ''a'' [(''href'', href)]
           [Tag ''span'' [] [Tag ''time'' [(''datetime'', ''2024-01-01T00:00:00.000Z'')] []]]
         # body)\<rparr>"

definition full_post :: fragment where
  "full_post = linked_post ''/alice/status/123''
     [Tag ''div'' [(''data-testid'', ''tweetText'')] [Str NavigableString ''hello   world ''],
      Tag ''div'' [(''role'', ''group'')]
        [Tag ''div'' [] [Str NavigableString ''1.2K replies''],
         Tag ''div'' [] [Str NavigableString ''7''],
         Tag ''div'' [] [Str NavigableString ''likes'']]]"

definition plain_post :: "string \<Rightarrow> fragment" where
  "plain_post t =
     \<lparr>outer = [],
      article = Tag ''article'' []
        [Tag ''div'' [(''data-testid'', ''tweetText'')] [Str NavigableString t]]\<rparr>"

definition undated_post :: fragment where
  "undated_post =
     \<lparr>outer = [], article = Tag ''article'' [] [Tag ''time'' [] [Str NavigableString ''2h'']]\<rparr>"

definition count_post :: "string \<Rightarrow> fragment" where
  "count_post t =
     \<lparr>outer = [],
      article = Tag ''article'' []
        [Tag ''div'' [(''role'', ''group'')] [Tag ''div'' [] [Str NavigableString t]]]\<rparr>"

text \<open>
  A browser whose page shows one more of the given texts in every cycle until all are
  shown, and whose random numbers are all 0 (the shortest pause). The numbers of the
  examples (0, 1/2, 1, 3/2, 2, 5/2 and their negatives) are doubles, and so are the
  results of the operations on them, so the rounding of the examples changes nothing.
\<close>

definition feed :: "string list \<Rightarrow> browser" where
  "feed ts = \<lparr>timeline_loaded = True,
              page_articles = (\<lambda>n. map plain_post (take (nat n + 1) ts)),
              rnd = (\<lambda>n. 0),
              round_double = (\<lambda>x. x)\<rparr>"

text \<open>
  A browser whose page holds one post without a record in the first cycle and one more
  post, with a record, from the second cycle on.
\<close>

definition late_feed :: browser where
  "late_feed = \<lparr>timeline_loaded = True,
                page_articles = (\<lambda>n. if n \<le> 0 then [undated_post]
                                     else [undated_post, plain_post ''a'']),
                rnd = (\<lambda>n. 0),
                round_double = (\<lambda>x. x)\<rparr>"

text \<open>
  The record of \<open>plain_post t\<close> for a text that cleaning leaves as it is, and the states
  of the loop on \<open>feed [''a'', ''b'']\<close> after one and after two cycles.
\<close>

definition plain_record :: "string \<Rightarrow> tweet_data" where
  "plain_record t =
     \<lparr>tweet_id = ''Unknown'', timestamp = ''Unknown'', tweet_text = t,
      replies = 0, retweets = 0, likes = 0, url = ''Unknown''\<rparr>"

definition after_a :: session where
  "after_a =
     \<lparr>seen = \<lparr>tweets = [plain_record ''a''], unique_tweet_ids = {},
              unique_tweet_texts = {''a''}\<rparr>,
      scroll_count = 1, consecutive_no_new_tweets = 0\<rparr>"

definition after_ab :: session where
  "after_ab =
     \<lparr>seen = \<lparr>tweets = [plain_record ''a'', plain_record ''b''], unique_tweet_ids = {},
              unique_tweet_texts = {''b'', ''a''}\<rparr>,
      scroll_count = 2, consecutive_no_new_tweets = 0\<rparr>"

section \<open>The extractor: auxiliary facts\<close>

lemma decode_from_ascii:
  "\<forall>b \<in> set bs. of_char b < (128::nat) \<Longrightarrow> decode_from 0 0 bs = map of_char bs"
  by (induction bs) simp_all

lemma utf8_decode_replicate:
  "of_char b < (128::nat) \<Longrightarrow> utf8_decode (replicate n b) = replicate n (of_char b)"
  by (simp add: utf8_decode_def decode_from_ascii map_replicate)

lemma re_search_digits_run:
  "re_search_digits cs =
     (if \<exists>c \<in> set cs. is_digit c
      then Some (takeWhile is_digit (dropWhile (\<lambda>c. \<not> is_digit c) cs)) else None)"
  by (induction cs) auto

lemma int_of_digits_snoc: "int_of_digits (ds @ [c]) = 10 * int_of_digits ds + digit_val c"
  by (simp add: int_of_digits_def)

lemma spec_decimal_value_snoc:
  "spec_decimal_value (ds @ [c]) = 10 * spec_decimal_value ds + digit_val c"
proof -
  have "(\<Sum>i<length ds. digit_val ((ds @ [c]) ! i) * 10 ^ (length ds - i)) =
        (\<Sum>i<length ds. 10 * (digit_val (ds ! i) * 10 ^ (length ds - 1 - i)))"
  proof (rule sum.cong)
    fix i assume "i \<in> {..<length ds}"
    then have i: "i < length ds" by simp
    then have "length ds - i = Suc (length ds - 1 - i)" by simp
    with i show "digit_val ((ds @ [c]) ! i) * 10 ^ (length ds - i) =
        10 * (digit_val (ds ! i) * 10 ^ (length ds - 1 - i))"
      by (simp add: nth_append)
  qed simp
  then show ?thesis
    by (simp add: spec_decimal_value_def sum_distrib_left)
qed

lemma int_of_digits_spec: "int_of_digits ds = spec_decimal_value ds"
proof (induction ds rule: rev_induct)
  case Nil
  show ?case by (simp add: int_of_digits_def spec_decimal_value_def)
next
  case (snoc c ds)
  then show ?case by (simp add: int_of_digits_snoc spec_decimal_value_snoc)
qed

lemma stat_value_spec:
  "stat_value t =
     (if int_max_str_digits < length (spec_first_digit_run t)
      then Inl (ValueError ''Exceeds the limit for integer string conversion'')
      else Inr (spec_count t))"
proof (cases "\<exists>c \<in> set (utf8_decode t). is_digit c")
  case True
  then show ?thesis
    by (simp add: stat_value_def spec_count_def spec_first_digit_run_def re_search_digits_run
        py_int_def int_of_digits_spec)
next
  case False
  then have "dropWhile (\<lambda>c. \<not> is_digit c) (utf8_decode t) = []"
    by (simp add: dropWhile_eq_Nil_conv)
  then have "spec_first_digit_run t = []"
    unfolding spec_first_digit_run_def by (simp only: takeWhile.simps)
  with False show ?thesis
    by (simp add: stat_value_def spec_count_def re_search_digits_run)
qed

lemma digit_val_nonneg: "0 \<le> digit_val c"
  by (simp add: digit_val_def split: option.splits)

lemma int_of_digits_nonneg: "0 \<le> int_of_digits ds"
proof (induction ds rule: rev_induct)
  case Nil
  show ?case by (simp add: int_of_digits_def)
next
  case (snoc c ds)
  with digit_val_nonneg [of c] show ?case by (simp add: int_of_digits_snoc)
qed

lemma stat_value_nonneg: "stat_value t = Inr n \<Longrightarrow> 0 \<le> n"
  using int_of_digits_nonneg
  by (auto simp: stat_value_def py_int_def split: option.splits if_splits)

lemma stat_at_nonneg: "stat_at els i = Inr n \<Longrightarrow> 0 \<le> n"
  by (auto simp: stat_at_def split: if_splits dest: stat_value_nonneg)

lemma stats_dict_get:
  assumes "stats_dict els = Inr stats"
  shows "stat_at els 0 = Inr (dict_get stats ''replies'' 0)"
    and "stat_at els 1 = Inr (dict_get stats ''retweets'' 0)"
    and "stat_at els 2 = Inr (dict_get stats ''likes'' 0)"
  using assms
  by (auto simp: stats_dict_def dict_get_def stat_at_def enumerate_eq_zip numeral_2_eq_2
      split: sum.splits if_splits)

lemma extract_tweet_data_stats:
  assumes "extract_tweet_data f u = Some td"
  shows "\<exists>stats. stats_dict (stats_elements f) = Inr stats \<and>
           replies td = dict_get stats ''replies'' 0 \<and>
           retweets td = dict_get stats ''retweets'' 0 \<and>
           likes td = dict_get stats ''likes'' 0"
  using assms
  by (auto simp: extract_tweet_data_def extract_tweet_data_try_def Let_def
      split: option.splits sum.splits prod.splits)

lemma extract_tweet_data_Some:
  assumes "extract_tweet_data f u = Some td"
  shows "tweet_text td = (case tweet_text_div f of None \<Rightarrow> ''No text found''
                          | Some (up, d) \<Rightarrow> clean_tweet_text (get_text d))"
    and "stat_at (stats_elements f) 0 = Inr (replies td)"
    and "stat_at (stats_elements f) 1 = Inr (retweets td)"
    and "stat_at (stats_elements f) 2 = Inr (likes td)"
    and "time_element f = None \<Longrightarrow> timestamp td = ''Unknown'' \<and> tweet_id td = ''Unknown''"
    and "url td = (if tweet_id td \<noteq> ''Unknown''
                   then ''https://twitter.com/'' @ u @ ''/status/'' @ tweet_id td else ''Unknown'')"
proof -
  from extract_tweet_data_stats [OF assms] obtain stats where
    st: "stats_dict (stats_elements f) = Inr stats" and
    eq: "replies td = dict_get stats ''replies'' 0" "retweets td = dict_get stats ''retweets'' 0"
      "likes td = dict_get stats ''likes'' 0"
    by blast
  from stats_dict_get(1) [OF st] eq show "stat_at (stats_elements f) 0 = Inr (replies td)"
    by simp
  from stats_dict_get(2) [OF st] eq show "stat_at (stats_elements f) 1 = Inr (retweets td)"
    by simp
  from stats_dict_get(3) [OF st] eq show "stat_at (stats_elements f) 2 = Inr (likes td)"
    by simp
  from assms show "tweet_text td = (case tweet_text_div f of None \<Rightarrow> ''No text found''
                          | Some (up, d) \<Rightarrow> clean_tweet_text (get_text d))"
    by (auto simp: extract_tweet_data_def extract_tweet_data_try_def Let_def
        split: option.splits sum.splits prod.splits)
  from assms
  show "time_element f = None \<Longrightarrow> timestamp td = ''Unknown'' \<and> tweet_id td = ''Unknown''"
    by (auto simp: extract_tweet_data_def extract_tweet_data_try_def Let_def
        split: option.splits sum.splits prod.splits)
  from assms show "url td = (if tweet_id td \<noteq> ''Unknown''
                   then ''https://twitter.com/'' @ u @ ''/status/'' @ tweet_id td else ''Unknown'')"
    by (auto simp: extract_tweet_data_def extract_tweet_data_try_def Let_def
        split: option.splits sum.splits prod.splits)
qed

section \<open>The loops: auxiliary facts\<close>

lemma process_article_rejected:
  "rejected u c f \<Longrightarrow> process_article u (c, n) f = (c, n)"
  by (auto simp: rejected_def process_article_def split: option.splits)

lemma process_article_accepted:
  assumes "\<not> rejected u c f"
  obtains td where "extract_tweet_data f u = Some td"
    and "process_article u (c, n) f =
          (\<lparr>tweets = tweets c @ [td],
            unique_tweet_ids = (if tweet_id td \<noteq> ''Unknown''
               then insert (tweet_id td) (unique_tweet_ids c) else unique_tweet_ids c),
            unique_tweet_texts = insert (tweet_text td) (unique_tweet_texts c)\<rparr>, n + 1)"
    and "tweet_text td \<notin> unique_tweet_texts c"
    and "tweet_id td = ''Unknown'' \<or> tweet_id td \<notin> unique_tweet_ids c"
  using assms by (auto simp: rejected_def process_article_def split: option.splits)

lemma process_article_grows:
  "process_article u (c, n) f = (c', n') \<Longrightarrow>
     unique_tweet_ids c \<subseteq> unique_tweet_ids c' \<and> unique_tweet_texts c \<subseteq> unique_tweet_texts c'
     \<and> prefix (tweets c) (tweets c') \<and> n \<le> n'"
  by (cases "rejected u c f") (auto simp: process_article_rejected elim!: process_article_accepted[where n=n])

lemma rejected_mono:
  "rejected u c f \<Longrightarrow> unique_tweet_ids c \<subseteq> unique_tweet_ids c' \<Longrightarrow>
     unique_tweet_texts c \<subseteq> unique_tweet_texts c' \<Longrightarrow> rejected u c' f"
  by (auto simp: rejected_def split: option.splits)

lemma process_article_then_rejected:
  "process_article u (c, n) f = (c', n') \<Longrightarrow> rejected u c' f"
  unfolding rejected_def process_article_def
  by (auto split: option.splits if_splits)

lemma foldl_grows:
  "foldl (process_article u) (c, n) fs = (c', n') \<Longrightarrow>
     unique_tweet_ids c \<subseteq> unique_tweet_ids c' \<and> unique_tweet_texts c \<subseteq> unique_tweet_texts c'
     \<and> prefix (tweets c) (tweets c') \<and> n \<le> n'"
proof (induction fs arbitrary: c n)
  case Nil
  then show ?case by simp
next
  case (Cons f fs)
  obtain c1 n1 where step: "process_article u (c, n) f = (c1, n1)"
    by (cases "process_article u (c, n) f")
  with Cons.prems have "foldl (process_article u) (c1, n1) fs = (c', n')" by simp
  from Cons.IH [OF this] process_article_grows [OF step] show ?case
    by (auto intro: prefix_order.trans)
qed

lemma foldl_all_rejected:
  "\<forall>f \<in> set fs. rejected u c f \<Longrightarrow> foldl (process_article u) (c, n) fs = (c, n)"
  by (induction fs) (simp_all add: process_article_rejected)

lemma foldl_then_rejected:
  "foldl (process_article u) (c, n) fs = (c', n') \<Longrightarrow> \<forall>f \<in> set fs. rejected u c' f"
proof (induction fs arbitrary: c n)
  case Nil
  then show ?case by simp
next
  case (Cons f fs)
  obtain c1 n1 where step: "process_article u (c, n) f = (c1, n1)"
    by (cases "process_article u (c, n) f")
  with Cons.prems have rest: "foldl (process_article u) (c1, n1) fs = (c', n')" by simp
  from process_article_then_rejected [OF step] have "rejected u c1 f" .
  with foldl_grows [OF rest] have "rejected u c' f" by (blast intro: rejected_mono)
  with Cons.IH [OF rest] show ?case by simp
qed

lemma process_article_index_ok:
  assumes ok: "index_ok c" and step: "process_article u (c, n) f = (c', n')"
  shows "index_ok c' \<and> int (length (tweets c')) - n' = int (length (tweets c)) - n"
proof (cases "rejected u c f")
  case True
  with step ok show ?thesis by (simp add: process_article_rejected)
next
  case False
  then obtain td where td: "extract_tweet_data f u = Some td"
    and fresh_text: "tweet_text td \<notin> unique_tweet_texts c"
    and fresh_id: "tweet_id td = ''Unknown'' \<or> tweet_id td \<notin> unique_tweet_ids c"
    by (auto simp: rejected_def split: option.splits)
  show ?thesis
  proof (cases "tweet_id td = ''Unknown''")
    case True
    with td fresh_text step have c': "c' = \<lparr>tweets = tweets c @ [td],
        unique_tweet_ids = unique_tweet_ids c,
        unique_tweet_texts = insert (tweet_text td) (unique_tweet_texts c)\<rparr>" and "n' = n + 1"
      by (auto simp: process_article_def)
    with ok True fresh_text show ?thesis
      by (auto simp: index_ok_def)
  next
    case False
    with td fresh_text fresh_id step have c': "c' = \<lparr>tweets = tweets c @ [td],
        unique_tweet_ids = insert (tweet_id td) (unique_tweet_ids c),
        unique_tweet_texts = insert (tweet_text td) (unique_tweet_texts c)\<rparr>" and "n' = n + 1"
      by (auto simp: process_article_def)
    with ok False fresh_text fresh_id show ?thesis
      by (auto simp: index_ok_def)
  qed
qed

lemma foldl_index_ok:
  "index_ok c \<Longrightarrow> foldl (process_article u) (c, n) fs = (c', n') \<Longrightarrow>
     index_ok c' \<and> int (length (tweets c')) - n' = int (length (tweets c)) - n"
proof (induction fs arbitrary: c n)
  case Nil
  then show ?case by simp
next
  case (Cons f fs)
  obtain c1 n1 where step: "process_article u (c, n) f = (c1, n1)"
    by (cases "process_article u (c, n) f")
  with Cons.prems have rest: "foldl (process_article u) (c1, n1) fs = (c', n')" by simp
  from process_article_index_ok [OF Cons.prems(1) step] Cons.IH [OF _ rest] show ?case
    by simp
qed

lemma index_ok_init: "index_ok init_collected"
  by (simp add: index_ok_def init_collected_def)


lemma articles_loop_grows:
  "articles_loop u c fs = (c', n') \<Longrightarrow>
     unique_tweet_ids c \<subseteq> unique_tweet_ids c' \<and> unique_tweet_texts c \<subseteq> unique_tweet_texts c'
     \<and> prefix (tweets c) (tweets c') \<and> 0 \<le> n'"
  unfolding articles_loop_def by (rule foldl_grows)

lemma articles_loop_idle:
  assumes "articles_loop u c fs = (c', 0)"
  shows "c' = c"
proof -
  have "\<And>c n. foldl (process_article u) (c, n) fs = (c', n) \<Longrightarrow> c' = c"
  proof (induction fs)
    case Nil
    then show ?case by simp
  next
    case (Cons f fs)
    obtain c1 n1 where step: "process_article u (c, n) f = (c1, n1)"
      by (cases "process_article u (c, n) f")
    with Cons.prems have rest: "foldl (process_article u) (c1, n1) fs = (c', n)" by simp
    from foldl_grows [OF rest] process_article_grows [OF step] have "n1 = n" by simp
    with step have "c1 = c"
      by (auto simp: process_article_def split: option.splits if_splits)
    moreover from rest \<open>n1 = n\<close> have "c' = c1" by (auto dest: Cons.IH)
    ultimately show ?case by simp
  qed
  with assms show ?thesis by (simp add: articles_loop_def)
qed

lemma scroll_cycle_Inr:
  assumes "scroll_cycle env u p v s = Inr s'"
  shows "scroll_count s' = scroll_count s + 1"
    and "articles_loop u (seen s) (page_articles env (scroll_count s)) =
           (seen s', snd (articles_loop u (seen s) (page_articles env (scroll_count s))))"
    and "consecutive_no_new_tweets s' =
           (if snd (articles_loop u (seen s) (page_articles env (scroll_count s))) = 0
            then consecutive_no_new_tweets s + 1 else 0)"
    and "0 \<le> sleep_length (round_double env) p v (rnd env (scroll_count s))"
  using assms
  by (auto simp: scroll_cycle_def time_sleep_def split: prod.splits sum.splits if_splits)

lemma scroll_cycle_ok:
  assumes "0 \<le> sleep_length (round_double env) p v (rnd env (scroll_count s))"
  shows "scroll_cycle env u p v s =
     Inr \<lparr>seen = fst (articles_loop u (seen s) (page_articles env (scroll_count s))),
          scroll_count = scroll_count s + 1,
          consecutive_no_new_tweets =
            (if snd (articles_loop u (seen s) (page_articles env (scroll_count s))) = 0
             then consecutive_no_new_tweets s + 1 else 0)\<rparr>"
  using assms by (simp add: scroll_cycle_def time_sleep_def split: prod.splits)

lemma scroll_cycle_prefix:
  "scroll_cycle env u p v s = Inr s' \<Longrightarrow> prefix (tweets (seen s)) (tweets (seen s'))"
  using articles_loop_grows [OF scroll_cycle_Inr(2)] by blast

lemma scroll_loop_result:
  "scroll_loop env u m p v s = Inr s' \<Longrightarrow>
     prefix (tweets (seen s)) (tweets (seen s')) \<and> scroll_count s \<le> scroll_count s'
     \<and> scroll_count s' \<le> max (scroll_count s) m"
proof (induction env u m p v s rule: scroll_loop.induct)
  case (1 env u m p v s)
  show ?case
  proof (cases "scroll_count s < m")
    case False
    with "1.prems" show ?thesis by (simp add: scroll_loop.simps [of env u m p v s])
  next
    case True
    with "1.prems" obtain s1 where cyc: "scroll_cycle env u p v s = Inr s1"
      by (auto simp: scroll_loop.simps [of env u m p v s] split: sum.splits)
    note one = scroll_cycle_prefix [OF cyc] scroll_cycle_Inr(1) [OF cyc]
    show ?thesis
    proof (cases "consecutive_no_new_tweets s1 \<ge> 5")
      case True
      with \<open>scroll_count s < m\<close> cyc "1.prems" have "s' = s1"
        by (simp add: scroll_loop.simps [of env u m p v s])
      with one \<open>scroll_count s < m\<close> show ?thesis by simp
    next
      case False
      with \<open>scroll_count s < m\<close> cyc "1.prems" have "scroll_loop env u m p v s1 = Inr s'"
        by (simp add: scroll_loop.simps [of env u m p v s])
      with "1.IH" [OF \<open>scroll_count s < m\<close> cyc False]
      have "prefix (tweets (seen s1)) (tweets (seen s')) \<and> scroll_count s1 \<le> scroll_count s'
         \<and> scroll_count s' \<le> max (scroll_count s1) m" by simp
      with one \<open>scroll_count s < m\<close> show ?thesis
        by (auto intro: prefix_order.trans)
    qed
  qed
qed

lemma loop_head_facts:
  "loop_head env u m p v n s \<Longrightarrow>
     scroll_count s = int n \<and> int n \<le> max 0 m \<and>
     0 \<le> consecutive_no_new_tweets s \<and> consecutive_no_new_tweets s < 5 \<and> index_ok (seen s)"
proof (induction rule: loop_head.induct)
  case start
  show ?case by (simp add: init_session_def index_ok_init)
next
  case (cycle n s s')
  from scroll_cycle_Inr(2) [OF cycle.hyps(3)] cycle.IH
  have "index_ok (seen s')"
    unfolding articles_loop_def by (blast dest: foldl_index_ok)
  with cycle scroll_cycle_Inr(1,3) [OF cycle.hyps(3)] show ?case
    by (auto split: if_splits)
qed

lemma loop_head_result:
  "loop_head env u m p v n s \<Longrightarrow>
     scroll_loop env u m p v s = scroll_loop env u m p v init_session"
proof (induction rule: loop_head.induct)
  case start
  show ?case by simp
next
  case (cycle n s s')
  from cycle.hyps(2,3,4) have "scroll_loop env u m p v s = scroll_loop env u m p v s'"
    by (simp add: scroll_loop.simps [of env u m p v s])
  with cycle.IH show ?case by simp
qed

lemma scroll_loop_done:
  "\<not> scroll_count s < m \<Longrightarrow> scroll_loop env u m p v s = Inr s"
  by (simp add: scroll_loop.simps [of env u m p v s])

lemma idle_break:
  "scroll_count s < m \<Longrightarrow> scroll_cycle env u p v s = Inr s' \<Longrightarrow>
     5 \<le> consecutive_no_new_tweets s' \<Longrightarrow> scroll_loop env u m p v s = Inr s'"
  by (simp add: scroll_loop.simps [of env u m p v s])


lemma productive_run:
  assumes H: "\<forall>n s. loop_head env u m p v n s \<and> int n < m \<longrightarrow>
       snd (articles_loop u (seen s) (page_articles env (scroll_count s))) \<noteq> 0 \<and>
       0 \<le> sleep_length (round_double env) p v (rnd env (scroll_count s))"
  shows "loop_head env u m p v n s \<Longrightarrow> int n \<le> m \<Longrightarrow> k = nat (m - int n) \<Longrightarrow>
     \<exists>s'. scroll_loop env u m p v s = Inr s' \<and> loop_head env u m p v (nat m) s'"
proof (induction k arbitrary: n s)
  case 0
  with loop_head_facts [OF "0.prems"(1)] have "scroll_count s = m" and "nat m = n" by simp_all
  with "0.prems"(1) show ?case by (simp add: scroll_loop.simps [of env u m p v s])
next
  case (Suc k)
  from Suc.prems have lt: "int n < m" by simp
  from loop_head_facts [OF Suc.prems(1)] have cnt: "scroll_count s = int n" by simp
  from H Suc.prems(1) lt
  have new: "snd (articles_loop u (seen s) (page_articles env (scroll_count s))) \<noteq> 0"
    and pause: "0 \<le> sleep_length (round_double env) p v (rnd env (scroll_count s))" by blast+
  define s1 where "s1 = \<lparr>seen = fst (articles_loop u (seen s) (page_articles env (scroll_count s))),
          scroll_count = scroll_count s + 1, consecutive_no_new_tweets = 0\<rparr>"
  from scroll_cycle_ok [OF pause] new have cyc: "scroll_cycle env u p v s = Inr s1"
    by (simp add: s1_def)
  have idle: "\<not> consecutive_no_new_tweets s1 \<ge> 5" by (simp add: s1_def)
  from cnt lt have run: "scroll_count s < m" by simp
  from loop_head.cycle [OF Suc.prems(1) run cyc idle]
  have head: "loop_head env u m p v (Suc n) s1" .
  from Suc.prems have "int (Suc n) \<le> m" "k = nat (m - int (Suc n))" by simp_all
  from Suc.IH [OF head this] obtain s' where
    "scroll_loop env u m p v s1 = Inr s'" "loop_head env u m p v (nat m) s'" by blast
  with run cyc idle show ?case
    by (simp add: scroll_loop.simps [of env u m p v s])
qed

lemma idle_run:
  assumes "k = nat (5 - consecutive_no_new_tweets s)"
    and "0 \<le> consecutive_no_new_tweets s" and "consecutive_no_new_tweets s < 5"
    and "scroll_count s + (5 - consecutive_no_new_tweets s) \<le> m"
    and "\<forall>j. 0 \<le> j \<and> j < 5 - consecutive_no_new_tweets s \<longrightarrow>
           snd (articles_loop u (seen s) (page_articles env (scroll_count s + j))) = 0 \<and>
           0 \<le> sleep_length (round_double env) p v (rnd env (scroll_count s + j))"
  shows "scroll_loop env u m p v s =
           Inr (s\<lparr>scroll_count := scroll_count s + (5 - consecutive_no_new_tweets s),
                  consecutive_no_new_tweets := 5\<rparr>)"
  using assms
proof (induction k arbitrary: s)
  case 0
  then show ?case by simp
next
  case (Suc k)
  from Suc.prems(5) [rule_format, of 0] Suc.prems(3)
  have new: "snd (articles_loop u (seen s) (page_articles env (scroll_count s))) = 0"
    and pause: "0 \<le> sleep_length (round_double env) p v (rnd env (scroll_count s))" by simp_all
  from new have "articles_loop u (seen s) (page_articles env (scroll_count s)) =
      (fst (articles_loop u (seen s) (page_articles env (scroll_count s))), 0)"
    by (metis prod.collapse)
  then have same: "fst (articles_loop u (seen s) (page_articles env (scroll_count s))) = seen s"
    by (rule articles_loop_idle)
  define s1 where "s1 = s\<lparr>scroll_count := scroll_count s + 1,
      consecutive_no_new_tweets := consecutive_no_new_tweets s + 1\<rparr>"
  from scroll_cycle_ok [OF pause, of u] new same
  have cyc: "scroll_cycle env u p v s = Inr s1" by (simp add: s1_def)
  from Suc.prems(3,4) have run: "scroll_count s < m" by simp
  show ?case
  proof (cases "consecutive_no_new_tweets s1 \<ge> 5")
    case True
    with Suc.prems(3) have "consecutive_no_new_tweets s = 4" by (simp add: s1_def)
    with run cyc True show ?thesis
      by (simp add: scroll_loop.simps [of env u m p v s] s1_def)
  next
    case False
    have "scroll_loop env u m p v s1 =
           Inr (s1\<lparr>scroll_count := scroll_count s1 + (5 - consecutive_no_new_tweets s1),
                  consecutive_no_new_tweets := 5\<rparr>)"
    proof (rule Suc.IH)
      show "k = nat (5 - consecutive_no_new_tweets s1)"
        using Suc.prems(1) by (simp add: s1_def)
      show "0 \<le> consecutive_no_new_tweets s1" using Suc.prems(2) by (simp add: s1_def)
      show "consecutive_no_new_tweets s1 < 5" using False by simp
      show "scroll_count s1 + (5 - consecutive_no_new_tweets s1) \<le> m"
        using Suc.prems(4) by (simp add: s1_def)
      show "\<forall>j. 0 \<le> j \<and> j < 5 - consecutive_no_new_tweets s1 \<longrightarrow>
           snd (articles_loop u (seen s1) (page_articles env (scroll_count s1 + j))) = 0 \<and>
           0 \<le> sleep_length (round_double env) p v (rnd env (scroll_count s1 + j))"
      proof (intro allI impI)
        fix j :: int
        assume "0 \<le> j \<and> j < 5 - consecutive_no_new_tweets s1"
        then have "0 \<le> j + 1 \<and> j + 1 < 5 - consecutive_no_new_tweets s"
          by (simp add: s1_def)
        from Suc.prems(5) [rule_format, OF this]
        show "snd (articles_loop u (seen s1) (page_articles env (scroll_count s1 + j))) = 0 \<and>
           0 \<le> sleep_length (round_double env) p v (rnd env (scroll_count s1 + j))"
          by (simp add: s1_def ac_simps)
      qed
    qed
    with run cyc False show ?thesis
      by (simp add: scroll_loop.simps [of env u m p v s] s1_def)
  qed
qed

lemma loop_head_collected:
  "loop_head env u m p v n s \<Longrightarrow> seen s = collected_after env u n"
proof (induction rule: loop_head.induct)
  case start
  show ?case by (simp add: init_session_def)
next
  case (cycle n s s')
  from scroll_cycle_Inr(2) [OF cycle.hyps(3)] loop_head_facts [OF cycle.hyps(1)] cycle.IH
  show ?case by (simp add: prod_eq_iff)
qed

lemma scroll_loop_idle_bound:
  "scroll_loop env u m p v s = Inr s' \<Longrightarrow> consecutive_no_new_tweets s < 5 \<Longrightarrow>
     consecutive_no_new_tweets s' \<le> 5"
proof (induction env u m p v s rule: scroll_loop.induct)
  case (1 env u m p v s)
  show ?case
  proof (cases "scroll_count s < m")
    case False
    with "1.prems" show ?thesis by (simp add: scroll_loop.simps [of env u m p v s])
  next
    case True
    with "1.prems" obtain s1 where cyc: "scroll_cycle env u p v s = Inr s1"
      by (auto simp: scroll_loop.simps [of env u m p v s] split: sum.splits)
    from scroll_cycle_Inr(3) [OF cyc] "1.prems"(2)
    have le: "consecutive_no_new_tweets s1 \<le> 5" by (simp split: if_splits)
    show ?thesis
    proof (cases "consecutive_no_new_tweets s1 \<ge> 5")
      case True
      with \<open>scroll_count s < m\<close> cyc "1.prems" have "s' = s1"
        by (simp add: scroll_loop.simps [of env u m p v s])
      with le show ?thesis by simp
    next
      case False
      with \<open>scroll_count s < m\<close> cyc "1.prems" have "scroll_loop env u m p v s1 = Inr s'"
        by (simp add: scroll_loop.simps [of env u m p v s])
      with "1.IH" [OF \<open>scroll_count s < m\<close> cyc False] False show ?thesis by simp
    qed
  qed
qed

lemma collected_after_prefix:
  "n \<le> n' \<Longrightarrow> prefix (tweets (collected_after env u n)) (tweets (collected_after env u n'))"
proof (induction n')
  case 0
  then show ?case by simp
next
  case (Suc n')
  have step: "prefix (tweets (collected_after env u n')) (tweets (collected_after env u (Suc n')))"
    using articles_loop_grows [of u "collected_after env u n'" "page_articles env (int n')"]
    by (cases "articles_loop u (collected_after env u n') (page_articles env (int n'))") simp
  show ?case
  proof (cases "n = Suc n'")
    case True
    then show ?thesis by simp
  next
    case False
    with Suc.prems have "n \<le> n'" by simp
    from Suc.IH [OF this] step show ?thesis by (rule prefix_order.trans)
  qed
qed

lemma scroll_cycles_snoc:
  "scroll_cycles env u p v k s = Inr s1 \<Longrightarrow>
     scroll_cycles env u p v (Suc k) s = scroll_cycle env u p v s1"
proof (induction k arbitrary: s)
  case 0
  then show ?case by (simp split: sum.splits)
next
  case (Suc k)
  from Suc.prems obtain s0 where first: "scroll_cycle env u p v s = Inr s0"
    and rest: "scroll_cycles env u p v k s0 = Inr s1"
    by (auto split: sum.splits)
  from Suc.IH [OF rest] first show ?case by simp
qed

lemma loop_head_cycles:
  "loop_head env u m p v n s \<Longrightarrow> scroll_cycles env u p v n init_session = Inr s"
proof (induction rule: loop_head.induct)
  case start
  show ?case by simp
next
  case (cycle n s s')
  from scroll_cycles_snoc [OF cycle.IH] cycle.hyps(3) show ?case by simp
qed

lemma scroll_loop_run:
  "scroll_loop env u m p v s = Inr s' \<Longrightarrow> consecutive_no_new_tweets s < 5 \<Longrightarrow>
     \<exists>k. scroll_cycles env u p v k s = Inr s' \<and>
         (k = 0 \<or> scroll_count s + int k \<le> m) \<and>
         (\<forall>j<k. \<forall>sj. scroll_cycles env u p v j s = Inr sj \<longrightarrow>
             consecutive_no_new_tweets sj < 5 \<and> scroll_count sj < m)"
proof (induction env u m p v s rule: scroll_loop.induct)
  case (1 env u m p v s)
  show ?case
  proof (cases "scroll_count s < m")
    case False
    with "1.prems" have "s' = s" by (simp add: scroll_loop.simps [of env u m p v s])
    then have "scroll_cycles env u p v 0 s = Inr s'" by simp
    then show ?thesis by blast
  next
    case True
    with "1.prems" obtain s1 where cyc: "scroll_cycle env u p v s = Inr s1"
      by (auto simp: scroll_loop.simps [of env u m p v s] split: sum.splits)
    show ?thesis
    proof (cases "consecutive_no_new_tweets s1 \<ge> 5")
      case stop: True
      with \<open>scroll_count s < m\<close> cyc "1.prems" have "s' = s1"
        by (simp add: scroll_loop.simps [of env u m p v s])
      with cyc have one: "scroll_cycles env u p v (Suc 0) s = Inr s'" by simp
      have "\<forall>j<Suc 0. \<forall>sj. scroll_cycles env u p v j s = Inr sj \<longrightarrow>
             consecutive_no_new_tweets sj < 5 \<and> scroll_count sj < m"
        using True "1.prems"(2) by simp
      with one True show ?thesis
        by (intro exI [of _ "Suc 0"]) simp
    next
      case go: False
      with \<open>scroll_count s < m\<close> cyc "1.prems" have rest: "scroll_loop env u m p v s1 = Inr s'"
        by (simp add: scroll_loop.simps [of env u m p v s])
      from go have "consecutive_no_new_tweets s1 < 5" by simp
      from "1.IH" [OF True cyc go rest this] obtain k where
        k: "scroll_cycles env u p v k s1 = Inr s'"
        and bound: "k = 0 \<or> scroll_count s1 + int k \<le> m"
        and before: "\<forall>j<k. \<forall>sj. scroll_cycles env u p v j s1 = Inr sj \<longrightarrow>
             consecutive_no_new_tweets sj < 5 \<and> scroll_count sj < m"
        by blast
      from scroll_cycle_Inr(1) [OF cyc] have cnt: "scroll_count s1 = scroll_count s + 1" .
      from k cyc have run: "scroll_cycles env u p v (Suc k) s = Inr s'" by simp
      from bound cnt True have le: "scroll_count s + int (Suc k) \<le> m" by auto
      have "\<forall>j<Suc k. \<forall>sj. scroll_cycles env u p v j s = Inr sj \<longrightarrow>
             consecutive_no_new_tweets sj < 5 \<and> scroll_count sj < m"
      proof (intro allI impI)
        fix j sj
        assume j: "j < Suc k" and sj: "scroll_cycles env u p v j s = Inr sj"
        show "consecutive_no_new_tweets sj < 5 \<and> scroll_count sj < m"
        proof (cases j)
          case 0
          with sj True "1.prems"(2) show ?thesis by simp
        next
          case (Suc j')
          with sj cyc have "scroll_cycles env u p v j' s1 = Inr sj" by simp
          with before j Suc show ?thesis by simp
        qed
      qed
      with run le show ?thesis by blast
    qed
  qed
qed

lemma scroll_loop_abort:
  "scroll_loop env u m p v s = Inl e \<Longrightarrow>
     \<exists>k s1. scroll_cycles env u p v k s = Inr s1 \<and> scroll_count s1 < m \<and>
            scroll_cycle env u p v s1 = Inl e"
proof (induction env u m p v s rule: scroll_loop.induct)
  case (1 env u m p v s)
  from "1.prems" have run: "scroll_count s < m"
    by (auto simp: scroll_loop.simps [of env u m p v s] split: if_splits)
  show ?case
  proof (cases "scroll_cycle env u p v s")
    case (Inl e')
    with run "1.prems" have "e' = e" by (simp add: scroll_loop.simps [of env u m p v s])
    with Inl run have "scroll_cycles env u p v 0 s = Inr s \<and> scroll_count s < m \<and>
            scroll_cycle env u p v s = Inl e" by simp
    then show ?thesis by blast
  next
    case (Inr s1)
    with run "1.prems" have go: "\<not> consecutive_no_new_tweets s1 \<ge> 5"
      and rest: "scroll_loop env u m p v s1 = Inl e"
      by (auto simp: scroll_loop.simps [of env u m p v s] split: if_splits)
    from "1.IH" [OF run Inr go rest] obtain k s2 where
      "scroll_cycles env u p v k s1 = Inr s2" "scroll_count s2 < m"
      "scroll_cycle env u p v s2 = Inl e" by blast
    with Inr have "scroll_cycles env u p v (Suc k) s = Inr s2 \<and> scroll_count s2 < m \<and>
            scroll_cycle env u p v s2 = Inl e" by simp
    then show ?thesis by blast
  qed
qed

lemma scroll_cycles_count:
  "scroll_cycles env u p v k s = Inr s' \<Longrightarrow> scroll_count s' = scroll_count s + int k"
proof (induction k arbitrary: s)
  case 0
  then show ?case by simp
next
  case (Suc k)
  from Suc.prems obtain s0 where first: "scroll_cycle env u p v s = Inr s0"
    and rest: "scroll_cycles env u p v k s0 = Inr s'"
    by (auto split: sum.splits)
  from Suc.IH [OF rest] scroll_cycle_Inr(1) [OF first] show ?case by simp
qed

lemma idle_after_productive:
  assumes lh: "loop_head env u m p v n s"
    and new: "snd (articles_loop u (seen s) (page_articles env (int n))) \<noteq> 0"
    and pause: "0 \<le> sleep_length (round_double env) p v (rnd env (int n))"
    and budget: "int n + 6 \<le> m"
    and idle: "\<forall>j \<in> {1..5}.
       snd (articles_loop u (fst (articles_loop u (seen s) (page_articles env (int n))))
              (page_articles env (int n + j))) = 0 \<and>
       0 \<le> sleep_length (round_double env) p v (rnd env (int n + j))"
  shows "scroll_loop env u m p v init_session =
     Inr \<lparr>seen = fst (articles_loop u (seen s) (page_articles env (int n))),
          scroll_count = int n + 6, consecutive_no_new_tweets = 5\<rparr>"
proof -
  from loop_head_facts [OF lh] have cnt: "scroll_count s = int n" by simp
  define s1 where "s1 = \<lparr>seen = fst (articles_loop u (seen s) (page_articles env (int n))),
          scroll_count = int n + 1, consecutive_no_new_tweets = 0\<rparr>"
  from scroll_cycle_ok [of env p v s u] pause new cnt
  have cyc: "scroll_cycle env u p v s = Inr s1" by (simp add: s1_def)
  from cnt budget have run: "scroll_count s < m" by simp
  have "\<not> consecutive_no_new_tweets s1 \<ge> 5" by (simp add: s1_def)
  from loop_head.cycle [OF lh run cyc this] have h1: "loop_head env u m p v (Suc n) s1" .
  have "scroll_loop env u m p v s1 =
           Inr (s1\<lparr>scroll_count := scroll_count s1 + (5 - consecutive_no_new_tweets s1),
                  consecutive_no_new_tweets := 5\<rparr>)"
  proof (rule idle_run [where k = 5])
    show "\<forall>j. 0 \<le> j \<and> j < 5 - consecutive_no_new_tweets s1 \<longrightarrow>
           snd (articles_loop u (seen s1) (page_articles env (scroll_count s1 + j))) = 0 \<and>
           0 \<le> sleep_length (round_double env) p v (rnd env (scroll_count s1 + j))"
    proof (intro allI impI)
      fix j :: int
      assume "0 \<le> j \<and> j < 5 - consecutive_no_new_tweets s1"
      then have "j + 1 \<in> {1..5}" by (simp add: s1_def)
      with idle have "snd (articles_loop u (fst (articles_loop u (seen s) (page_articles env (int n))))
              (page_articles env (int n + (j + 1)))) = 0 \<and>
         0 \<le> sleep_length (round_double env) p v (rnd env (int n + (j + 1)))" by blast
      then show "snd (articles_loop u (seen s1) (page_articles env (scroll_count s1 + j))) = 0 \<and>
           0 \<le> sleep_length (round_double env) p v (rnd env (scroll_count s1 + j))"
        by (simp add: s1_def ac_simps)
    qed
  qed (use budget in \<open>simp_all add: s1_def\<close>)
  with loop_head_result [OF h1] show ?thesis by (simp add: s1_def)
qed

lemma scroll_loop_raise:
  "scroll_count s < m \<Longrightarrow> scroll_cycle env u p v s = Inl e \<Longrightarrow>
   scroll_loop env u m p v s = Inl e"
  by (simp add: scroll_loop.simps [of env u m p v s])

lemma scroll_loop_step:
  "scroll_count s < m \<Longrightarrow> scroll_cycle env u p v s = Inr s' \<Longrightarrow>
   scroll_loop env u m p v s =
     (if consecutive_no_new_tweets s' \<ge> 5 then Inr s' else scroll_loop env u m p v s')"
  by (simp add: scroll_loop.simps [of env u m p v s])

lemma sleep_length_exact: "sleep_length (\<lambda>x. x) p v r = pause_duration p v r"
  by (simp add: sleep_length_def float_uniform_def pause_duration_def uniform_def)

subsection \<open>The examples evaluated\<close>

lemmas extract_defs =
  extract_tweet_data_def extract_tweet_data_try_def time_element_def tweet_text_div_def
  find_first_def find_all_def stats_elements_def stats_dict_def dict_get_def stat_value_def
  py_int_def int_max_str_digits_def int_of_digits_def digit_val_def is_digit_def decimal_def
  digit_zeros_def clean_tweet_text_def utf8_decode_def utf8_encode_def encode_point_def
  char_of_def bit_Suc_0_iff strip_def is_space_def space_points_def enumerate_eq_zip Let_def

lemma extract_full_post:
  "extract_tweet_data full_post ''alice'' =
     Some \<lparr>tweet_id = ''123'', timestamp = ''2024-01-01T00:00:00.000Z'',
           tweet_text = ''hello world'', replies = 1, retweets = 7, likes = 0,
           url = ''https://twitter.com/alice/status/123''\<rparr>"
  by (simp add: full_post_def linked_post_def extract_defs)

lemma extract_textless_post:
  "d \<noteq> CHR ''/'' \<Longrightarrow>
   extract_tweet_data (linked_post (''/alice/status/'' @ [d]) []) ''alice'' =
     Some \<lparr>tweet_id = [d], timestamp = ''2024-01-01T00:00:00.000Z'',
           tweet_text = ''No text found'', replies = 0, retweets = 0, likes = 0,
           url = ''https://twitter.com/alice/status/'' @ [d]\<rparr>"
  by (simp add: linked_post_def extract_defs)

lemma extract_plain_post:
  "extract_tweet_data (plain_post t) u =
     Some \<lparr>tweet_id = ''Unknown'', timestamp = ''Unknown'', tweet_text = clean_tweet_text t,
           replies = 0, retweets = 0, likes = 0, url = ''Unknown''\<rparr>"
  by (simp add: plain_post_def extract_tweet_data_def extract_tweet_data_try_def time_element_def
      tweet_text_div_def find_first_def find_all_def stats_elements_def stats_dict_def dict_get_def
      enumerate_eq_zip Let_def)

lemma extract_undated_post: "extract_tweet_data undated_post u = None"
  by (simp add: undated_post_def extract_tweet_data_def extract_tweet_data_try_def time_element_def
      find_first_def find_all_def)

lemma clean_letters:
  "clean_tweet_text ''a'' = ''a''" "clean_tweet_text ''b'' = ''b''" "clean_tweet_text ''c'' = ''c''"
  by (simp_all add: clean_tweet_text_def utf8_decode_def utf8_encode_def encode_point_def
      char_of_def bit_Suc_0_iff strip_def is_space_def space_points_def)

lemmas run_defs =
  feed_def scroll_cycle_def articles_loop_def process_article_def extract_plain_post
  clean_letters init_session_def init_collected_def sleep_length_def float_uniform_def
  time_sleep_def plain_record_def after_a_def after_ab_def

lemma feed_ab_cycles:
  "scroll_cycle (feed [''a'', ''b'']) ''alice'' (5 / 2) 1 init_session = Inr after_a"
  "scroll_cycle (feed [''a'', ''b'']) ''alice'' (5 / 2) 1 after_a = Inr after_ab"
  by (simp_all add: run_defs)

lemma feed_ab_heads:
  assumes "2 \<le> m"
  shows "loop_head (feed [''a'', ''b'']) ''alice'' m (5 / 2) 1 1 after_a"
    and "loop_head (feed [''a'', ''b'']) ''alice'' m (5 / 2) 1 2 after_ab"
proof -
  have h1: "loop_head (feed [''a'', ''b'']) ''alice'' m (5 / 2) 1 (Suc 0) after_a"
    by (rule loop_head.cycle [OF loop_head.start _ feed_ab_cycles(1)])
       (use assms in \<open>simp_all add: init_session_def after_a_def\<close>)
  have h2: "loop_head (feed [''a'', ''b'']) ''alice'' m (5 / 2) 1 (Suc (Suc 0)) after_ab"
    by (rule loop_head.cycle [OF h1 _ feed_ab_cycles(2)])
       (use assms in \<open>simp_all add: after_a_def after_ab_def\<close>)
  from h1 show "loop_head (feed [''a'', ''b'']) ''alice'' m (5 / 2) 1 1 after_a" by simp
  from h2 show "loop_head (feed [''a'', ''b'']) ''alice'' m (5 / 2) 1 2 after_ab"
    by (simp add: numeral_2_eq_2)
qed

lemma nines_run:
  "0 < n \<Longrightarrow> spec_first_digit_run (replicate n CHR ''9'') = replicate n 57"
  by (simp add: spec_first_digit_run_def utf8_decode_replicate is_digit_def decimal_def
      digit_zeros_def)

lemma extract_count_post:
  "extract_tweet_data (count_post t) u =
     (case stat_value t of
        Inl e \<Rightarrow> None
      | Inr n \<Rightarrow> Some ((plain_record ''No text found'')\<lparr>replies := n\<rparr>))"
  by (simp add: count_post_def plain_record_def extract_tweet_data_def extract_tweet_data_try_def
      time_element_def tweet_text_div_def find_first_def find_all_def stats_elements_def
      stats_dict_def dict_get_def enumerate_eq_zip Let_def split: sum.splits)

section \<open>The claims\<close>

text \<open>
  C1 (idempotent deduplication). Feeding a sequence of fragments a second time, to the
  state the first pass left, adds no record and counts no new one; feeding the sequence
  twice in one pass gives the state and the count of feeding it once. After a pass from
  the empty state the count is the number of collected records, no text and no known
  identifier occurs twice among them, and every record the sequence yields has its text
  or its known identifier among them.
\<close>

theorem idempotent_dedup:
  assumes "articles_loop u c0 fs = (c, n)"
  shows "articles_loop u c fs = (c, 0) \<and>
         articles_loop u c0 (fs @ fs) = (c, n) \<and>
         (c0 = init_collected \<longrightarrow>
            int (length (tweets c)) = n \<and>
            distinct (map tweet_text (tweets c)) \<and>
            distinct (filter (\<lambda>i. i \<noteq> ''Unknown'') (map tweet_id (tweets c))) \<and>
            (\<forall>f \<in> set fs. \<forall>td. extract_tweet_data f u = Some td \<longrightarrow>
               tweet_text td \<in> tweet_text ` set (tweets c) \<or>
               (tweet_id td \<noteq> ''Unknown'' \<and> tweet_id td \<in> tweet_id ` set (tweets c))))"
proof -
  from assms have pass: "foldl (process_article u) (c0, 0) fs = (c, n)"
    by (simp add: articles_loop_def)
  from foldl_then_rejected [OF pass] have rej: "\<forall>f \<in> set fs. rejected u c f" .
  have second: "articles_loop u c fs = (c, 0)"
    unfolding articles_loop_def using rej by (rule foldl_all_rejected)
  from rej have "foldl (process_article u) (c, n) fs = (c, n)"
    by (rule foldl_all_rejected)
  with pass have twice: "articles_loop u c0 (fs @ fs) = (c, n)"
    by (simp add: articles_loop_def)
  have fresh: "int (length (tweets c)) = n \<and>
            distinct (map tweet_text (tweets c)) \<and>
            distinct (filter (\<lambda>i. i \<noteq> ''Unknown'') (map tweet_id (tweets c))) \<and>
            (\<forall>f \<in> set fs. \<forall>td. extract_tweet_data f u = Some td \<longrightarrow>
               tweet_text td \<in> tweet_text ` set (tweets c) \<or>
               (tweet_id td \<noteq> ''Unknown'' \<and> tweet_id td \<in> tweet_id ` set (tweets c)))"
    if "c0 = init_collected"
  proof -
    from that pass have "foldl (process_article u) (init_collected, 0) fs = (c, n)" by simp
    from foldl_index_ok [OF index_ok_init this]
    have ok: "index_ok c" and len: "int (length (tweets c)) = n"
      by (simp_all add: init_collected_def)
    from ok rej have "\<forall>f \<in> set fs. \<forall>td. extract_tweet_data f u = Some td \<longrightarrow>
               tweet_text td \<in> tweet_text ` set (tweets c) \<or>
               (tweet_id td \<noteq> ''Unknown'' \<and> tweet_id td \<in> tweet_id ` set (tweets c))"
      by (auto simp: index_ok_def rejected_def)
    with ok len show ?thesis by (simp add: index_ok_def)
  qed
  from second twice fresh show ?thesis by blast
qed

theorem idempotent_dedup_witness:
  "articles_loop ''alice'' init_collected [full_post, plain_post ''a'', full_post] =
     (\<lparr>tweets = [\<lparr>tweet_id = ''123'', timestamp = ''2024-01-01T00:00:00.000Z'',
                   tweet_text = ''hello world'', replies = 1, retweets = 7, likes = 0,
                   url = ''https://twitter.com/alice/status/123''\<rparr>,
                 \<lparr>tweet_id = ''Unknown'', timestamp = ''Unknown'', tweet_text = ''a'',
                   replies = 0, retweets = 0, likes = 0, url = ''Unknown''\<rparr>],
       unique_tweet_ids = {''123''},
       unique_tweet_texts = {''a'', ''hello world''}\<rparr>, 2) \<and>
   articles_loop ''alice''
     \<lparr>tweets = [\<lparr>tweet_id = ''123'', timestamp = ''2024-01-01T00:00:00.000Z'',
                   tweet_text = ''hello world'', replies = 1, retweets = 7, likes = 0,
                   url = ''https://twitter.com/alice/status/123''\<rparr>,
                 \<lparr>tweet_id = ''Unknown'', timestamp = ''Unknown'', tweet_text = ''a'',
                   replies = 0, retweets = 0, likes = 0, url = ''Unknown''\<rparr>],
       unique_tweet_ids = {''123''},
       unique_tweet_texts = {''a'', ''hello world''}\<rparr>
     [full_post, plain_post ''a'', full_post] =
     (\<lparr>tweets = [\<lparr>tweet_id = ''123'', timestamp = ''2024-01-01T00:00:00.000Z'',
                   tweet_text = ''hello world'', replies = 1, retweets = 7, likes = 0,
                   url = ''https://twitter.com/alice/status/123''\<rparr>,
                 \<lparr>tweet_id = ''Unknown'', timestamp = ''Unknown'', tweet_text = ''a'',
                   replies = 0, retweets = 0, likes = 0, url = ''Unknown''\<rparr>],
       unique_tweet_ids = {''123''},
       unique_tweet_texts = {''a'', ''hello world''}\<rparr>, 0)"
proof -
  have pass: "articles_loop ''alice'' init_collected [full_post, plain_post ''a'', full_post] =
     (\<lparr>tweets = [\<lparr>tweet_id = ''123'', timestamp = ''2024-01-01T00:00:00.000Z'',
                   tweet_text = ''hello world'', replies = 1, retweets = 7, likes = 0,
                   url = ''https://twitter.com/alice/status/123''\<rparr>,
                 \<lparr>tweet_id = ''Unknown'', timestamp = ''Unknown'', tweet_text = ''a'',
                   replies = 0, retweets = 0, likes = 0, url = ''Unknown''\<rparr>],
       unique_tweet_ids = {''123''},
       unique_tweet_texts = {''a'', ''hello world''}\<rparr>, 2)"
    by (simp add: articles_loop_def process_article_def init_collected_def
        extract_full_post extract_plain_post clean_letters)
  from idempotent_dedup [OF pass] pass show ?thesis by blast
qed

text \<open>
  C6 (the text check applies to every record). A record whose text is already in
  \<open>unique_tweet_texts\<close> is rejected, whatever its identifier: the state and the count
  are unchanged.
\<close>

theorem text_fallback_rejects:
  "extract_tweet_data f u = Some td \<Longrightarrow> tweet_text td \<in> unique_tweet_texts c \<Longrightarrow>
     process_article u (c, n) f = (c, n)"
  by (simp add: process_article_def)

theorem text_fallback_rejects_witness:
  "extract_tweet_data full_post ''alice'' =
     Some \<lparr>tweet_id = ''123'', timestamp = ''2024-01-01T00:00:00.000Z'',
           tweet_text = ''hello world'', replies = 1, retweets = 7, likes = 0,
           url = ''https://twitter.com/alice/status/123''\<rparr> \<and>
   ''123'' \<noteq> ''Unknown'' \<and> ''123'' \<notin> ({} :: string set) \<and>
   ''hello world'' \<in> {''hello world''} \<and>
   process_article ''alice''
     (\<lparr>tweets = [plain_record ''hello world''], unique_tweet_ids = {},
       unique_tweet_texts = {''hello world''}\<rparr>, 0)
     full_post =
     (\<lparr>tweets = [plain_record ''hello world''], unique_tweet_ids = {},
       unique_tweet_texts = {''hello world''}\<rparr>, 0)"
  using text_fallback_rejects [OF extract_full_post,
      of "\<lparr>tweets = [plain_record ''hello world''], unique_tweet_ids = {},
           unique_tweet_texts = {''hello world''}\<rparr>" 0]
  by (simp add: extract_full_post)

text \<open>
  C10 (a failed extraction changes nothing). When \<open>extract_tweet_data\<close> returns
  \<open>None\<close> for a fragment, the loop body leaves the collected records, both sets and
  \<open>new_tweets_found\<close> as they were, and the loop goes on with the next fragment: the
  articles around the fragment are processed as if it were not there.
\<close>

theorem extraction_failure_skipped:
  assumes "extract_tweet_data f u = None"
  shows "process_article u (c, n) f = (c, n) \<and>
         foldl (process_article u) (c, n) (f # rest) = foldl (process_article u) (c, n) rest \<and>
         articles_loop u c (before @ f # rest) = articles_loop u c (before @ rest)"
proof -
  from assms have skip: "process_article u st f = st" for st
    by (cases st) (simp add: process_article_def)
  then show ?thesis by (simp add: articles_loop_def)
qed

theorem extraction_failure_skipped_witness:
  "extract_tweet_data undated_post ''alice'' = None \<and>
   process_article ''alice'' (init_collected, 0) undated_post = (init_collected, 0) \<and>
   articles_loop ''alice'' init_collected [plain_post ''a'', undated_post, plain_post ''b''] =
   articles_loop ''alice'' init_collected [plain_post ''a'', plain_post ''b'']"
  using extraction_failure_skipped [OF extract_undated_post,
      of "''alice''" init_collected 0 "[plain_post ''b'']" "[plain_post ''a'']"]
  by (simp add: extract_undated_post)

text \<open>
  C4 (the pause before the next cycle). The argument of \<open>time.sleep\<close> is
  \<open>scroll_pause_time + random.uniform(-scroll_variation, scroll_variation)\<close> as it
  is: nothing clamps it. With a pause of 0.5, a variation of 1.0 and the draw 0 it is
  -0.5, and the cycle ends in the \<open>ValueError\<close> of \<open>time.sleep\<close>.
\<close>

theorem pause_not_clamped:
  "uniform (- 1) 1 0 = - 1 \<and>
   pause_duration (1 / 2) 1 0 = - (1 / 2) \<and>
   \<not> 0 < pause_duration (1 / 2) 1 0 \<and>
   scroll_cycle (feed []) ''alice'' (1 / 2) 1 init_session =
     Inl (ValueError ''sleep length must be non-negative'')"
  by (simp add: pause_duration_def uniform_def sleep_length_def float_uniform_def
      scroll_cycle_def time_sleep_def feed_def articles_loop_def init_session_def)

text \<open>
  C4 as the code has it, for the exact value of the expression (the loop sleeps for that
  value rounded). For a variation that is not negative, the pause lies between
  \<open>scroll_pause_time - scroll_variation\<close> and \<open>scroll_pause_time + scroll_variation\<close>,
  and it is positive for every draw exactly when the variation is smaller than the
  pause time (as with the defaults 2.5 and 1.0).
\<close>

theorem pause_positive_iff:
  assumes "0 \<le> v"
  shows "(\<forall>r. 0 \<le> r \<and> r < 1 \<longrightarrow>
            p - v \<le> pause_duration p v r \<and> pause_duration p v r \<le> p + v) \<and>
         ((\<forall>r. 0 \<le> r \<and> r < 1 \<longrightarrow> 0 < pause_duration p v r) \<longleftrightarrow> v < p)"
proof -
  have eq: "pause_duration p v r = p - v + 2 * v * r" for r
    by (simp add: pause_duration_def uniform_def algebra_simps)
  have range: "p - v \<le> pause_duration p v r \<and> pause_duration p v r \<le> p + v"
    if "0 \<le> r \<and> r < 1" for r
  proof -
    from that assms have "0 \<le> 2 * v * r" by simp
    moreover from that assms have "v * r \<le> v * 1" by (intro mult_left_mono) simp_all
    ultimately show ?thesis by (simp add: eq)
  qed
  have "v < p" if "\<forall>r. 0 \<le> r \<and> r < 1 \<longrightarrow> 0 < pause_duration p v r"
  proof -
    from that have "0 < pause_duration p v 0" by simp
    then show ?thesis by (simp add: eq)
  qed
  moreover have "0 < pause_duration p v r" if "v < p" "0 \<le> r \<and> r < 1" for r
    using range [OF that(2)] that(1) by simp
  ultimately show ?thesis using range by blast
qed

theorem pause_positive_iff_witness:
  "(0::real) \<le> 1 \<and> (1::real) < 5 / 2 \<and>
   0 < pause_duration (5 / 2) 1 0 \<and> 0 < pause_duration (5 / 2) 1 (1 / 2) \<and>
   pause_duration (5 / 2) 1 (1 / 2) \<le> 5 / 2 + 1 \<and>
   \<not> (\<forall>r. 0 \<le> r \<and> r < 1 \<longrightarrow> 0 < pause_duration (1 / 2) 1 r)"
proof -
  have v: "(0::real) \<le> 1" by simp
  from pause_positive_iff [OF v, of "5 / 2"]
  have "0 < pause_duration (5 / 2) 1 0 \<and> 0 < pause_duration (5 / 2) 1 (1 / 2) \<and>
      pause_duration (5 / 2) 1 (1 / 2) \<le> 5 / 2 + 1"
    by simp
  moreover from pause_positive_iff [OF v, of "1 / 2"]
  have "\<not> (\<forall>r. 0 \<le> r \<and> r < 1 \<longrightarrow> 0 < pause_duration (1 / 2) 1 r)"
    by simp
  ultimately show ?thesis by simp
qed

text \<open>
  C5 (a \<open>time\<close> element without \<open>datetime\<close>). For the article
  \<open><article><time>2h</time></article>\<close> the subscript \<open>time_element['datetime']\<close>
  raises \<open>KeyError\<close>, the \<open>except\<close> clause catches it, and the whole extraction
  returns \<open>None\<close>: no record with the timestamp \<open>Unknown\<close> comes back.
\<close>

theorem missing_datetime_fails:
  "time_element undated_post \<noteq> None \<and>
   extract_tweet_data_try undated_post ''alice'' = Inl (KeyError ''datetime'') \<and>
   extract_tweet_data undated_post ''alice'' = None"
  by (simp add: undated_post_def extract_tweet_data_def extract_tweet_data_try_def
      time_element_def find_first_def find_all_def)

text \<open>
  What holds instead: when the fragment has no \<open>time\<close> element at all, the record
  that is extracted has the timestamp, the identifier and the address \<open>Unknown\<close>.
\<close>

lemma missing_time_element:
  assumes "time_element f = None" and "extract_tweet_data f u = Some td"
  shows "timestamp td = ''Unknown'' \<and> tweet_id td = ''Unknown'' \<and> url td = ''Unknown''"
  using extract_tweet_data_Some(5,6) [OF assms(2)] assms(1) by simp

text \<open>
  C7 (counter extraction). The count of a statistics element is not always the value of
  its first run of digits: \<open>int\<close> refuses a run of more than 4300 digits. For a post
  whose first statistics element holds 4301 nines, the conversion raises \<open>ValueError\<close>
  and the whole extraction returns \<open>None\<close>, so that no count is extracted.
\<close>

theorem long_digit_run_no_count:
  "stats_elements (count_post (replicate 4301 CHR ''9'')) =
     [Tag ''div'' [] [Str NavigableString (replicate 4301 CHR ''9'')]] \<and>
   get_text (Tag ''div'' [] [Str NavigableString (replicate 4301 CHR ''9'')]) =
     replicate 4301 CHR ''9'' \<and>
   spec_first_digit_run (replicate 4301 CHR ''9'') = replicate 4301 57 \<and>
   stat_value (replicate 4301 CHR ''9'') =
     Inl (ValueError ''Exceeds the limit for integer string conversion'') \<and>
   extract_tweet_data (count_post (replicate 4301 CHR ''9'')) ''alice'' = None"
proof -
  have shape: "stats_elements (count_post (replicate 4301 CHR ''9'')) =
     [Tag ''div'' [] [Str NavigableString (replicate 4301 CHR ''9'')]]"
    by (simp add: count_post_def stats_elements_def find_all_def)
  have run: "spec_first_digit_run (replicate 4301 CHR ''9'') = replicate 4301 57"
    by (rule nines_run) simp
  have raised: "stat_value (replicate 4301 CHR ''9'') =
     Inl (ValueError ''Exceeds the limit for integer string conversion'')"
    by (simp add: stat_value_spec run int_max_str_digits_def)
  from shape run raised show ?thesis by (simp add: extract_count_post)
qed

text \<open>
  C7 as the code has it. The value read from a statistics text is the positional value
  of the first maximal run of decimal digits among its characters, 0 when it has no
  digit, and never negative, unless the run has more than 4300 digits, where \<open>int\<close>
  raises; \<open>1.2K replies\<close> gives 1. In a record that is extracted, replies, retweets
  and likes are the values of the first, second and third \<open>div\<close> below the first
  statistics group, and 0 for a position that does not exist; if one of these three
  values cannot be read, no record is extracted.
\<close>

theorem counter_extraction:
  "stat_value t =
     (if int_max_str_digits < length (spec_first_digit_run t)
      then Inl (ValueError ''Exceeds the limit for integer string conversion'')
      else Inr (spec_count t)) \<and>
   ((\<forall>c \<in> set (utf8_decode t). \<not> is_digit c) \<longrightarrow> stat_value t = Inr 0) \<and>
   (stat_value t = Inr n \<longrightarrow> n = spec_count t \<and> 0 \<le> n) \<and>
   stat_value ''1.2K replies'' = Inr 1 \<and>
   (length els \<le> i \<longrightarrow> stat_at els i = Inr 0) \<and>
   (extract_tweet_data f u = Some td \<longrightarrow>
      stat_at (stats_elements f) 0 = Inr (replies td) \<and>
      stat_at (stats_elements f) 1 = Inr (retweets td) \<and>
      stat_at (stats_elements f) 2 = Inr (likes td) \<and>
      0 \<le> replies td \<and> 0 \<le> retweets td \<and> 0 \<le> likes td) \<and>
   (i < 3 \<and> stat_at (stats_elements f) i = Inl e \<longrightarrow> extract_tweet_data f u = None)"
proof -
  note spec = stat_value_spec [of t]
  have no_digit: "(\<forall>c \<in> set (utf8_decode t). \<not> is_digit c) \<longrightarrow> stat_value t = Inr 0"
    by (simp add: stat_value_def re_search_digits_run)
  have val: "stat_value t = Inr n \<longrightarrow> n = spec_count t \<and> 0 \<le> n"
    using spec stat_value_nonneg [of t n] by (auto split: if_splits)
  have example: "stat_value ''1.2K replies'' = Inr 1"
    by (simp add: stat_value_def utf8_decode_def is_digit_def decimal_def digit_zeros_def
        py_int_def int_max_str_digits_def int_of_digits_def digit_val_def)
  have missing: "length els \<le> i \<longrightarrow> stat_at els i = Inr 0"
    by (simp add: stat_at_def)
  have fields: "stat_at (stats_elements f) 0 = Inr (replies td) \<and>
      stat_at (stats_elements f) 1 = Inr (retweets td) \<and>
      stat_at (stats_elements f) 2 = Inr (likes td) \<and>
      0 \<le> replies td \<and> 0 \<le> retweets td \<and> 0 \<le> likes td"
    if "extract_tweet_data f u = Some td"
    using extract_tweet_data_Some(2,3,4) [OF that] stat_at_nonneg by blast
  have unread: "extract_tweet_data f u = None"
    if "i < 3 \<and> stat_at (stats_elements f) i = Inl e"
  proof (cases "extract_tweet_data f u")
    case None
    then show ?thesis .
  next
    case (Some td')
    from that have "i = 0 \<or> i = 1 \<or> i = 2" by auto
    with extract_tweet_data_Some(2,3,4) [OF Some] that show ?thesis by auto
  qed
  from spec no_digit val example missing fields unread show ?thesis by blast
qed

theorem counter_extraction_witness:
  "stat_value ''likes'' = Inr 0 \<and>
   stat_value [CHR 0xD9, CHR 0xA3] = Inr 3 \<and>
   length ([] :: node list) \<le> 0 \<and> stat_at [] 0 = Inr 0 \<and>
   extract_tweet_data full_post ''alice'' =
     Some \<lparr>tweet_id = ''123'', timestamp = ''2024-01-01T00:00:00.000Z'',
           tweet_text = ''hello world'', replies = 1, retweets = 7, likes = 0,
           url = ''https://twitter.com/alice/status/123''\<rparr> \<and>
   stat_at (stats_elements full_post) 0 = Inr 1 \<and>
   stat_at (stats_elements full_post) 1 = Inr 7 \<and>
   stat_at (stats_elements full_post) 2 = Inr 0 \<and>
   (0::nat) < 3 \<and>
   stat_at (stats_elements (count_post (replicate 4301 CHR ''9''))) 0 =
     Inl (ValueError ''Exceeds the limit for integer string conversion'') \<and>
   extract_tweet_data (count_post (replicate 4301 CHR ''9'')) ''alice'' = None"
proof -
  have plain: "\<forall>c \<in> set (utf8_decode ''likes''). \<not> is_digit c"
    by (simp add: utf8_decode_def is_digit_def decimal_def digit_zeros_def)
  have arabic: "spec_first_digit_run [CHR 0xD9, CHR 0xA3] = [1635]"
    "spec_count [CHR 0xD9, CHR 0xA3] = 3"
    by (simp_all add: spec_first_digit_run_def spec_count_def spec_decimal_value_def
        utf8_decode_def is_digit_def decimal_def digit_zeros_def digit_val_def)
  have "stats_elements (count_post (replicate 4301 CHR ''9'')) =
     [Tag ''div'' [] [Str NavigableString (replicate 4301 CHR ''9'')]]"
    by (simp add: count_post_def stats_elements_def find_all_def)
  moreover have "stat_value (replicate 4301 CHR ''9'') =
     Inl (ValueError ''Exceeds the limit for integer string conversion'')"
    by (simp add: stat_value_spec nines_run int_max_str_digits_def)
  ultimately have long: "stat_at (stats_elements (count_post (replicate 4301 CHR ''9''))) 0 =
     Inl (ValueError ''Exceeds the limit for integer string conversion'')"
    by (simp add: stat_at_def)
  note first = counter_extraction [of "''likes''" 0 "[]" 0 full_post "''alice''"
      "\<lparr>tweet_id = ''123'', timestamp = ''2024-01-01T00:00:00.000Z'',
        tweet_text = ''hello world'', replies = 1, retweets = 7, likes = 0,
        url = ''https://twitter.com/alice/status/123''\<rparr>"
      "ValueError ''Exceeds the limit for integer string conversion''"]
  note second = counter_extraction [of "[CHR 0xD9, CHR 0xA3]" 3 "[]" 0
      "count_post (replicate 4301 CHR ''9'')" "''alice''" _
      "ValueError ''Exceeds the limit for integer string conversion''"]
  have bounds: "length ([] :: node list) \<le> 0" "(0::nat) < 3" by simp_all
  from first plain have r1: "stat_value ''likes'' = Inr 0" by blast
  from first bounds have r2: "stat_at [] 0 = Inr 0" by blast
  from first extract_full_post
  have r3: "stat_at (stats_elements full_post) 0 = Inr 1 \<and>
     stat_at (stats_elements full_post) 1 = Inr 7 \<and>
     stat_at (stats_elements full_post) 2 = Inr 0"
    by simp
  from second have "stat_value [CHR 0xD9, CHR 0xA3] =
     (if int_max_str_digits < length (spec_first_digit_run [CHR 0xD9, CHR 0xA3])
      then Inl (ValueError ''Exceeds the limit for integer string conversion'')
      else Inr (spec_count [CHR 0xD9, CHR 0xA3]))"
    by blast
  with arabic have r4: "stat_value [CHR 0xD9, CHR 0xA3] = Inr 3"
    by (simp add: int_max_str_digits_def)
  from second bounds long
  have r5: "extract_tweet_data (count_post (replicate 4301 CHR ''9'')) ''alice'' = None"
    by blast
  from r1 r2 r3 r4 r5 bounds long extract_full_post show ?thesis by simp
qed

text \<open>
  C9 (posts without a text container). A fragment without a text container gives the
  text \<open>No text found\<close> only if the extraction returns a record at all. Of the first
  two fragments below neither has a text container; the first has a \<open>time\<close> element
  without \<open>datetime\<close>, so it gives no record, and the second is the one collected.
  And of three posts without a text container only the first is collected, so that of
  the second and the third neither is.
\<close>

theorem textless_without_record:
  "tweet_text_div undated_post = None \<and>
   tweet_text_div (linked_post ''/alice/status/2'' []) = None \<and>
   extract_tweet_data undated_post ''alice'' = None \<and>
   map tweet_id (tweets (fst (articles_loop ''alice'' init_collected
      [undated_post, linked_post ''/alice/status/2'' []]))) = [''2''] \<and>
   map tweet_id (tweets (fst (articles_loop ''alice'' init_collected
      [linked_post ''/alice/status/1'' [], linked_post ''/alice/status/2'' [],
       linked_post ''/alice/status/3'' []]))) = [''1'']"
proof -
  have shape: "tweet_text_div undated_post = None \<and>
      tweet_text_div (linked_post ''/alice/status/2'' []) = None"
    by (simp add: undated_post_def linked_post_def tweet_text_div_def find_first_def find_all_def)
  note posts = extract_textless_post [of "CHR ''1''"] extract_textless_post [of "CHR ''2''"]
    extract_textless_post [of "CHR ''3''"]
  have run: "map tweet_id (tweets (fst (articles_loop ''alice'' init_collected
      [undated_post, linked_post ''/alice/status/2'' []]))) = [''2'']"
    using posts
    by (simp add: articles_loop_def process_article_def init_collected_def extract_undated_post)
  have three: "map tweet_id (tweets (fst (articles_loop ''alice'' init_collected
      [linked_post ''/alice/status/1'' [], linked_post ''/alice/status/2'' [],
       linked_post ''/alice/status/3'' []]))) = [''1'']"
    using posts
    by (simp add: articles_loop_def process_article_def init_collected_def)
  from shape run three show ?thesis by (simp add: extract_undated_post)
qed

text \<open>
  C9 as the code has it. Two fragments without a text container from which records are
  extracted both give the text \<open>No text found\<close>. Processed one after the other from
  the empty state, only the first is collected; and from any state, once the first was
  collected the second is rejected, whatever the two identifiers are.
\<close>

theorem textless_collision:
  assumes "tweet_text_div f1 = None" and "tweet_text_div f2 = None"
    and "extract_tweet_data f1 u = Some td1" and "extract_tweet_data f2 u = Some td2"
  shows "tweet_text td1 = ''No text found'' \<and> tweet_text td2 = ''No text found'' \<and>
     tweets (fst (articles_loop u init_collected [f1, f2])) = [td1] \<and>
     snd (articles_loop u init_collected [f1, f2]) = 1 \<and>
     (\<forall>c n. fst (process_article u (c, n) f1) \<noteq> c \<longrightarrow>
        process_article u (process_article u (c, n) f1) f2 = process_article u (c, n) f1)"
proof -
  note td1 = assms(3) and td2 = assms(4)
  from extract_tweet_data_Some(1) [OF td1] assms(1)
  have t1: "tweet_text td1 = ''No text found''" by simp
  from extract_tweet_data_Some(1) [OF td2] assms(2)
  have t2: "tweet_text td2 = ''No text found''" by simp
  from td1 td2 t1 t2
  have pair: "tweets (fst (articles_loop u init_collected [f1, f2])) = [td1] \<and>
     snd (articles_loop u init_collected [f1, f2]) = 1"
    by (simp add: articles_loop_def process_article_def init_collected_def)
  have later: "process_article u (process_article u (c, n) f1) f2 = process_article u (c, n) f1"
    if "fst (process_article u (c, n) f1) \<noteq> c" for c n
    using that td1 td2 t1 t2 by (auto simp: process_article_def split: if_splits)
  from t1 t2 pair later show ?thesis by blast
qed

theorem textless_collision_witness:
  "tweet_text_div (linked_post ''/alice/status/1'' []) = None \<and>
   tweet_text_div (linked_post ''/alice/status/2'' []) = None \<and>
   extract_tweet_data (linked_post ''/alice/status/1'' []) ''alice'' =
     Some \<lparr>tweet_id = ''1'', timestamp = ''2024-01-01T00:00:00.000Z'',
           tweet_text = ''No text found'', replies = 0, retweets = 0, likes = 0,
           url = ''https://twitter.com/alice/status/1''\<rparr> \<and>
   extract_tweet_data (linked_post ''/alice/status/2'' []) ''alice'' =
     Some \<lparr>tweet_id = ''2'', timestamp = ''2024-01-01T00:00:00.000Z'',
           tweet_text = ''No text found'', replies = 0, retweets = 0, likes = 0,
           url = ''https://twitter.com/alice/status/2''\<rparr> \<and>
   tweets (fst (articles_loop ''alice'' init_collected
      [linked_post ''/alice/status/1'' [], linked_post ''/alice/status/2'' []])) =
     [\<lparr>tweet_id = ''1'', timestamp = ''2024-01-01T00:00:00.000Z'',
       tweet_text = ''No text found'', replies = 0, retweets = 0, likes = 0,
       url = ''https://twitter.com/alice/status/1''\<rparr>]"
proof -
  have h: "tweet_text_div (linked_post ''/alice/status/1'' []) = None"
    "tweet_text_div (linked_post ''/alice/status/2'' []) = None"
    by (simp_all add: linked_post_def tweet_text_div_def find_first_def find_all_def)
  have e1: "extract_tweet_data (linked_post ''/alice/status/1'' []) ''alice'' =
     Some \<lparr>tweet_id = ''1'', timestamp = ''2024-01-01T00:00:00.000Z'',
           tweet_text = ''No text found'', replies = 0, retweets = 0, likes = 0,
           url = ''https://twitter.com/alice/status/1''\<rparr>"
    using extract_textless_post [of "CHR ''1''"] by simp
  have e2: "extract_tweet_data (linked_post ''/alice/status/2'' []) ''alice'' =
     Some \<lparr>tweet_id = ''2'', timestamp = ''2024-01-01T00:00:00.000Z'',
           tweet_text = ''No text found'', replies = 0, retweets = 0, likes = 0,
           url = ''https://twitter.com/alice/status/2''\<rparr>"
    using extract_textless_post [of "CHR ''2''"] by simp
  from textless_collision [OF h e1 e2] h e1 e2 show ?thesis by blast
qed

text \<open>
  C2 (termination by budget). With a budget of 3 and a page that shows a new post in
  each of the first three cycles, the loop does not always make three cycles: with a
  pause time of 0.5, a variation of 1.0 and the draw 0 the length handed to
  \<open>time.sleep\<close> in the first cycle is -0.5, and the \<open>ValueError\<close> ends the loop
  there.
\<close>

theorem budget_run_aborted:
  "snd (articles_loop ''alice'' (collected_after (feed [''a'', ''b'', ''c'']) ''alice'' 0)
         (page_articles (feed [''a'', ''b'', ''c'']) 0)) = 1 \<and>
   snd (articles_loop ''alice'' (collected_after (feed [''a'', ''b'', ''c'']) ''alice'' 1)
         (page_articles (feed [''a'', ''b'', ''c'']) 1)) = 1 \<and>
   snd (articles_loop ''alice'' (collected_after (feed [''a'', ''b'', ''c'']) ''alice'' 2)
         (page_articles (feed [''a'', ''b'', ''c'']) 2)) = 1 \<and>
   sleep_length (round_double (feed [''a'', ''b'', ''c''])) (1 / 2) 1
     (rnd (feed [''a'', ''b'', ''c'']) 0) = - (1 / 2) \<and>
   scroll_loop (feed [''a'', ''b'', ''c'']) ''alice'' 3 (1 / 2) 1 init_session =
     Inl (ValueError ''sleep length must be non-negative'')"
proof -
  have "scroll_cycle (feed [''a'', ''b'', ''c'']) ''alice'' (1 / 2) 1 init_session =
     Inl (ValueError ''sleep length must be non-negative'')"
    by (simp add: run_defs)
  then have "scroll_loop (feed [''a'', ''b'', ''c'']) ''alice'' 3 (1 / 2) 1 init_session =
     Inl (ValueError ''sleep length must be non-negative'')"
    by (rule scroll_loop_raise [rotated]) (simp add: init_session_def)
  then show ?thesis by (simp add: run_defs numeral_2_eq_2)
qed

text \<open>
  C2 as the code has it. Whatever the loop returns is the state after \<open>k\<close> complete
  cycles for some \<open>k\<close> that is at most \<open>max_scrolls\<close> (none for a budget that is not
  positive), and an exception leaves the loop in a cycle that started within the
  budget. If every cycle within the budget finds a new record and sleeps for a length
  that is not negative, the loop returns the state after exactly \<open>max_scrolls\<close>
  cycles: after 3 for a budget of 3.
\<close>

theorem termination_by_budget:
  "(scroll_loop env u m p v init_session = Inr s \<longrightarrow>
      (\<exists>k. int k \<le> max 0 m \<and> scroll_cycles env u p v k init_session = Inr s \<and>
           scroll_count s = int k)) \<and>
   (scroll_loop env u m p v init_session = Inl e \<longrightarrow>
      (\<exists>k s'. int k < m \<and> scroll_cycles env u p v k init_session = Inr s' \<and>
              scroll_cycle env u p v s' = Inl e)) \<and>
   (0 \<le> m \<and>
    (\<forall>k s. int k < m \<and> scroll_cycles env u p v k init_session = Inr s \<longrightarrow>
       snd (articles_loop u (seen s) (page_articles env (scroll_count s))) \<noteq> 0 \<and>
       0 \<le> sleep_length (round_double env) p v (rnd env (scroll_count s))) \<longrightarrow>
    (\<exists>s. scroll_loop env u m p v init_session = Inr s \<and>
         scroll_cycles env u p v (nat m) init_session = Inr s \<and> scroll_count s = m))"
proof -
  have returned: "\<exists>k. int k \<le> max 0 m \<and> scroll_cycles env u p v k init_session = Inr s \<and>
           scroll_count s = int k"
    if "scroll_loop env u m p v init_session = Inr s"
  proof -
    have "consecutive_no_new_tweets init_session < 5" by (simp add: init_session_def)
    from scroll_loop_run [OF that this] obtain k where
      k: "scroll_cycles env u p v k init_session = Inr s"
      and "k = 0 \<or> scroll_count init_session + int k \<le> m" by blast
    then have "int k \<le> max 0 m" by (auto simp: init_session_def)
    moreover from scroll_cycles_count [OF k] have "scroll_count s = int k"
      by (simp add: init_session_def)
    ultimately show ?thesis using k by blast
  qed
  have aborted: "\<exists>k s'. int k < m \<and> scroll_cycles env u p v k init_session = Inr s' \<and>
              scroll_cycle env u p v s' = Inl e"
    if "scroll_loop env u m p v init_session = Inl e"
  proof -
    from scroll_loop_abort [OF that] obtain k s' where
      k: "scroll_cycles env u p v k init_session = Inr s'" and lt: "scroll_count s' < m"
      and raised: "scroll_cycle env u p v s' = Inl e" by blast
    from scroll_cycles_count [OF k] lt have "int k < m" by (simp add: init_session_def)
    with k raised show ?thesis by blast
  qed
  have exact: "\<exists>s. scroll_loop env u m p v init_session = Inr s \<and>
         scroll_cycles env u p v (nat m) init_session = Inr s \<and> scroll_count s = m"
    if "0 \<le> m" and H: "\<forall>k s. int k < m \<and> scroll_cycles env u p v k init_session = Inr s \<longrightarrow>
       snd (articles_loop u (seen s) (page_articles env (scroll_count s))) \<noteq> 0 \<and>
       0 \<le> sleep_length (round_double env) p v (rnd env (scroll_count s))"
  proof -
    from H have "\<forall>n s. loop_head env u m p v n s \<and> int n < m \<longrightarrow>
       snd (articles_loop u (seen s) (page_articles env (scroll_count s))) \<noteq> 0 \<and>
       0 \<le> sleep_length (round_double env) p v (rnd env (scroll_count s))"
      by (blast dest: loop_head_cycles)
    from productive_run [OF this loop_head.start, of "nat m"] that(1)
    obtain s where run: "scroll_loop env u m p v init_session = Inr s"
      and lh: "loop_head env u m p v (nat m) s" by auto
    from loop_head_cycles [OF lh] loop_head_facts [OF lh] that(1) run show ?thesis by auto
  qed
  from returned aborted exact show ?thesis by blast
qed

theorem termination_by_budget_witness:
  "(0::int) \<le> 3 \<and>
   sleep_length (round_double (feed [''a'', ''b'', ''c''])) (5 / 2) 1
     (rnd (feed [''a'', ''b'', ''c'']) 0) = 3 / 2 \<and>
   scroll_loop (feed [''a'', ''b'', ''c'']) ''alice'' 3 (5 / 2) 1 init_session =
     Inr \<lparr>seen = \<lparr>tweets = [plain_record ''a'', plain_record ''b'', plain_record ''c''],
                  unique_tweet_ids = {}, unique_tweet_texts = {''c'', ''b'', ''a''}\<rparr>,
          scroll_count = 3, consecutive_no_new_tweets = 0\<rparr> \<and>
   scroll_cycles (feed [''a'', ''b'', ''c'']) ''alice'' (5 / 2) 1 3 init_session =
     Inr \<lparr>seen = \<lparr>tweets = [plain_record ''a'', plain_record ''b'', plain_record ''c''],
                  unique_tweet_ids = {}, unique_tweet_texts = {''c'', ''b'', ''a''}\<rparr>,
          scroll_count = 3, consecutive_no_new_tweets = 0\<rparr>"
proof -
  have three: "scroll_cycles (feed [''a'', ''b'', ''c'']) ''alice'' (5 / 2) 1 (Suc (Suc (Suc 0)))
      init_session =
     Inr \<lparr>seen = \<lparr>tweets = [plain_record ''a'', plain_record ''b'', plain_record ''c''],
                  unique_tweet_ids = {}, unique_tweet_texts = {''c'', ''b'', ''a''}\<rparr>,
          scroll_count = 3, consecutive_no_new_tweets = 0\<rparr>"
    by (simp add: run_defs)
  have H: "\<forall>k s. int k < 3 \<and>
       scroll_cycles (feed [''a'', ''b'', ''c'']) ''alice'' (5 / 2) 1 k init_session = Inr s \<longrightarrow>
       snd (articles_loop ''alice'' (seen s)
              (page_articles (feed [''a'', ''b'', ''c'']) (scroll_count s))) \<noteq> 0 \<and>
       0 \<le> sleep_length (round_double (feed [''a'', ''b'', ''c''])) (5 / 2) 1
             (rnd (feed [''a'', ''b'', ''c'']) (scroll_count s))"
  proof (intro allI impI, elim conjE)
    fix k s
    assume lt: "int k < 3"
      and run: "scroll_cycles (feed [''a'', ''b'', ''c'']) ''alice'' (5 / 2) 1 k init_session = Inr s"
    from lt have "k = 0 \<or> k = Suc 0 \<or> k = Suc (Suc 0)" by arith
    then show "snd (articles_loop ''alice'' (seen s)
              (page_articles (feed [''a'', ''b'', ''c'']) (scroll_count s))) \<noteq> 0 \<and>
       0 \<le> sleep_length (round_double (feed [''a'', ''b'', ''c''])) (5 / 2) 1
             (rnd (feed [''a'', ''b'', ''c'']) (scroll_count s))"
      using run by (auto simp: run_defs)
  qed
  note exact = termination_by_budget [of "feed [''a'', ''b'', ''c'']" "''alice''" 3 "5 / 2" 1,
      THEN conjunct2, THEN conjunct2, rule_format]
  have "(0::int) \<le> 3" by simp
  from exact [OF conjI [OF this H]]
  obtain s where "scroll_loop (feed [''a'', ''b'', ''c'']) ''alice'' 3 (5 / 2) 1 init_session = Inr s"
    and "scroll_cycles (feed [''a'', ''b'', ''c'']) ''alice'' (5 / 2) 1 (nat 3) init_session = Inr s"
    by blast
  with three show ?thesis by (simp add: numeral_3_eq_3 feed_def sleep_length_def float_uniform_def)
qed

text \<open>
  C3 (termination by idleness). On a page that shows its last new post in cycle 2, the
  loop does not always stop after cycle 7: with a budget of 3 it stops after cycle 3,
  with one cycle without a new record behind it; and with a pause time of 0.5, a
  variation of 1.0 and the draw 0 the \<open>ValueError\<close> of \<open>time.sleep\<close> ends it in
  the first cycle.
\<close>

theorem idle_stop_not_reached:
  "scroll_cycle (feed [''a'', ''b'']) ''alice'' (5 / 2) 1 init_session = Inr after_a \<and>
   scroll_cycle (feed [''a'', ''b'']) ''alice'' (5 / 2) 1 after_a = Inr after_ab \<and>
   scroll_loop (feed [''a'', ''b'']) ''alice'' 3 (5 / 2) 1 init_session =
     Inr (after_ab\<lparr>scroll_count := 3, consecutive_no_new_tweets := 1\<rparr>) \<and>
   scroll_loop (feed [''a'', ''b'']) ''alice'' 200 (1 / 2) 1 init_session =
     Inl (ValueError ''sleep length must be non-negative'')"
proof -
  have h2: "loop_head (feed [''a'', ''b'']) ''alice'' 3 (5 / 2) 1 2 after_ab"
    by (rule feed_ab_heads) simp
  have c3: "scroll_cycle (feed [''a'', ''b'']) ''alice'' (5 / 2) 1 after_ab =
      Inr (after_ab\<lparr>scroll_count := 3, consecutive_no_new_tweets := 1\<rparr>)"
    by (simp add: run_defs)
  have "scroll_loop (feed [''a'', ''b'']) ''alice'' 3 (5 / 2) 1
      (after_ab\<lparr>scroll_count := 3, consecutive_no_new_tweets := 1\<rparr>) =
      Inr (after_ab\<lparr>scroll_count := 3, consecutive_no_new_tweets := 1\<rparr>)"
    by (rule scroll_loop_done) simp
  moreover have "scroll_count after_ab < 3" by (simp add: after_ab_def)
  ultimately have "scroll_loop (feed [''a'', ''b'']) ''alice'' 3 (5 / 2) 1 after_ab =
      Inr (after_ab\<lparr>scroll_count := 3, consecutive_no_new_tweets := 1\<rparr>)"
    using scroll_loop_step [OF _ c3] by simp
  with loop_head_result [OF h2]
  have budget: "scroll_loop (feed [''a'', ''b'']) ''alice'' 3 (5 / 2) 1 init_session =
      Inr (after_ab\<lparr>scroll_count := 3, consecutive_no_new_tweets := 1\<rparr>)"
    by simp
  have "scroll_cycle (feed [''a'', ''b'']) ''alice'' (1 / 2) 1 init_session =
     Inl (ValueError ''sleep length must be non-negative'')"
    by (simp add: run_defs)
  then have raised: "scroll_loop (feed [''a'', ''b'']) ''alice'' 200 (1 / 2) 1 init_session =
     Inl (ValueError ''sleep length must be non-negative'')"
    by (rule scroll_loop_raise [rotated]) (simp add: init_session_def)
  from budget raised feed_ab_cycles show ?thesis by simp
qed

text \<open>
  C3 as the code has it. A cycle that ends with five or more in
  \<open>consecutive_no_new_tweets\<close> is the last one: the loop returns the state of its end.
  Every cycle of a run that returns started with fewer than five, and the state
  returned has at most five. If cycle 2 finds a new record, whatever cycle 1 found, and
  cycles 3 to 7 find none, then the loop returns after cycle 7 with five in
  \<open>consecutive_no_new_tweets\<close>, provided that the budget is at least 7 and that the
  lengths handed to \<open>time.sleep\<close> are not negative.
\<close>

theorem termination_by_idleness:
  "(scroll_count s < m \<and> scroll_cycle env u p v s = Inr s1 \<and>
      5 \<le> consecutive_no_new_tweets s1 \<longrightarrow> scroll_loop env u m p v s = Inr s1) \<and>
   (scroll_loop env u m p v init_session = Inr s' \<longrightarrow>
      consecutive_no_new_tweets s' \<le> 5 \<and>
      (\<exists>k. scroll_cycles env u p v k init_session = Inr s' \<and>
           (\<forall>j<k. \<forall>sj. scroll_cycles env u p v j init_session = Inr sj \<longrightarrow>
                consecutive_no_new_tweets sj < 5))) \<and>
   (scroll_cycle env u p v init_session = Inr c1 \<and>
    snd (articles_loop u (seen c1) (page_articles env 1)) \<noteq> 0 \<and>
    0 \<le> sleep_length (round_double env) p v (rnd env 1) \<and>
    7 \<le> m \<and>
    (\<forall>j \<in> {2..6}.
       snd (articles_loop u (fst (articles_loop u (seen c1) (page_articles env 1)))
              (page_articles env j)) = 0 \<and>
       0 \<le> sleep_length (round_double env) p v (rnd env j)) \<longrightarrow>
    scroll_loop env u m p v init_session =
      Inr \<lparr>seen = fst (articles_loop u (seen c1) (page_articles env 1)),
           scroll_count = 7, consecutive_no_new_tweets = 5\<rparr>)"
proof -
  have last: "scroll_loop env u m p v s = Inr s1"
    if "scroll_count s < m \<and> scroll_cycle env u p v s = Inr s1 \<and>
      5 \<le> consecutive_no_new_tweets s1"
    using that by (simp add: idle_break)
  have returned: "consecutive_no_new_tweets s' \<le> 5 \<and>
      (\<exists>k. scroll_cycles env u p v k init_session = Inr s' \<and>
           (\<forall>j<k. \<forall>sj. scroll_cycles env u p v j init_session = Inr sj \<longrightarrow>
                consecutive_no_new_tweets sj < 5))"
    if run: "scroll_loop env u m p v init_session = Inr s'"
  proof -
    have zero: "consecutive_no_new_tweets init_session < 5" by (simp add: init_session_def)
    from scroll_loop_run [OF run zero] scroll_loop_idle_bound [OF run zero]
    show ?thesis by blast
  qed
  have idle: "scroll_loop env u m p v init_session =
      Inr \<lparr>seen = fst (articles_loop u (seen c1) (page_articles env 1)),
           scroll_count = 7, consecutive_no_new_tweets = 5\<rparr>"
    if cyc: "scroll_cycle env u p v init_session = Inr c1"
      and new: "snd (articles_loop u (seen c1) (page_articles env 1)) \<noteq> 0"
      and pause: "0 \<le> sleep_length (round_double env) p v (rnd env 1)"
      and budget: "7 \<le> m"
      and none: "\<forall>j \<in> {2..6}.
       snd (articles_loop u (fst (articles_loop u (seen c1) (page_articles env 1)))
              (page_articles env j)) = 0 \<and>
       0 \<le> sleep_length (round_double env) p v (rnd env j)"
  proof -
    from scroll_cycle_Inr(3) [OF cyc] have "consecutive_no_new_tweets c1 \<le> 1"
      by (simp add: init_session_def)
    then have "\<not> consecutive_no_new_tweets c1 \<ge> 5" by simp
    from loop_head.cycle [OF loop_head.start _ cyc this] budget
    have lh: "loop_head env u m p v (Suc 0) c1" by (simp add: init_session_def)
    have "scroll_loop env u m p v init_session =
       Inr \<lparr>seen = fst (articles_loop u (seen c1) (page_articles env (int (Suc 0)))),
          scroll_count = int (Suc 0) + 6, consecutive_no_new_tweets = 5\<rparr>"
    proof (rule idle_after_productive [OF lh])
      show "\<forall>j \<in> {1..5}.
         snd (articles_loop u (fst (articles_loop u (seen c1) (page_articles env (int (Suc 0)))))
              (page_articles env (int (Suc 0) + j))) = 0 \<and>
         0 \<le> sleep_length (round_double env) p v (rnd env (int (Suc 0) + j))"
      proof
        fix j :: int
        assume "j \<in> {1..5}"
        then have "1 + j \<in> {2..6}" by simp
        with none show "snd (articles_loop u
              (fst (articles_loop u (seen c1) (page_articles env (int (Suc 0)))))
              (page_articles env (int (Suc 0) + j))) = 0 \<and>
         0 \<le> sleep_length (round_double env) p v (rnd env (int (Suc 0) + j))"
          by simp
      qed
    qed (use new pause budget in simp_all)
    then show ?thesis by simp
  qed
  from last returned idle show ?thesis by blast
qed

theorem termination_by_idleness_witness:
  "scroll_cycle late_feed ''alice'' (5 / 2) 1 init_session =
     Inr \<lparr>seen = init_collected, scroll_count = 1, consecutive_no_new_tweets = 1\<rparr> \<and>
   snd (articles_loop ''alice'' init_collected (page_articles late_feed 1)) = 1 \<and>
   (7::int) \<le> 200 \<and>
   scroll_loop late_feed ''alice'' 200 (5 / 2) 1 init_session =
     Inr \<lparr>seen = \<lparr>tweets = [plain_record ''a''], unique_tweet_ids = {},
                  unique_tweet_texts = {''a''}\<rparr>,
          scroll_count = 7, consecutive_no_new_tweets = 5\<rparr>"
proof -
  note eval = late_feed_def scroll_cycle_def articles_loop_def process_article_def
    extract_plain_post extract_undated_post clean_letters init_session_def init_collected_def
    sleep_length_def float_uniform_def time_sleep_def plain_record_def
  have c1: "scroll_cycle late_feed ''alice'' (5 / 2) 1 init_session =
     Inr \<lparr>seen = init_collected, scroll_count = 1, consecutive_no_new_tweets = 1\<rparr>"
    by (simp add: eval)
  have new: "snd (articles_loop ''alice'' init_collected (page_articles late_feed 1)) = 1"
    and c2: "fst (articles_loop ''alice'' init_collected (page_articles late_feed 1)) =
      \<lparr>tweets = [plain_record ''a''], unique_tweet_ids = {}, unique_tweet_texts = {''a''}\<rparr>"
    by (simp_all add: eval)
  have pause: "0 \<le> sleep_length (round_double late_feed) (5 / 2) 1 (rnd late_feed j)" for j
    by (simp add: eval)
  have none: "\<forall>j \<in> {2..6}.
       snd (articles_loop ''alice''
              (fst (articles_loop ''alice''
                 (seen \<lparr>seen = init_collected, scroll_count = 1, consecutive_no_new_tweets = 1\<rparr>)
                 (page_articles late_feed 1)))
              (page_articles late_feed j)) = 0 \<and>
       0 \<le> sleep_length (round_double late_feed) (5 / 2) 1 (rnd late_feed j)"
  proof
    fix j :: int
    assume "j \<in> {2..6}"
    then have "\<not> j \<le> 0" by simp
    then have "page_articles late_feed j = [undated_post, plain_post ''a'']"
      by (simp add: late_feed_def)
    with c2 pause [of j]
    show "snd (articles_loop ''alice''
              (fst (articles_loop ''alice''
                 (seen \<lparr>seen = init_collected, scroll_count = 1, consecutive_no_new_tweets = 1\<rparr>)
                 (page_articles late_feed 1)))
              (page_articles late_feed j)) = 0 \<and>
       0 \<le> sleep_length (round_double late_feed) (5 / 2) 1 (rnd late_feed j)"
      by (simp add: articles_loop_def process_article_def extract_plain_post
          extract_undated_post clean_letters plain_record_def)
  qed
  from termination_by_idleness [where env = late_feed and u = "''alice''" and m = 200
      and p = "5 / 2" and v = 1
      and ?c1.0 = "\<lparr>seen = init_collected, scroll_count = 1, consecutive_no_new_tweets = 1\<rparr>"]
    c1 new pause [of 1] none c2
  have "scroll_loop late_feed ''alice'' 200 (5 / 2) 1 init_session =
     Inr \<lparr>seen = \<lparr>tweets = [plain_record ''a''], unique_tweet_ids = {},
                  unique_tweet_texts = {''a''}\<rparr>,
          scroll_count = 7, consecutive_no_new_tweets = 5\<rparr>"
    by simp
  with c1 new show ?thesis by simp
qed

text \<open>
  C8 (the collected list only grows at its end). One pass of the loop body leaves
  \<open>tweets\<close> as it is or appends the record of the fragment; the list before a loop over
  the articles, before a cycle, or at an earlier evaluation of the loop condition is a
  prefix of the list after it; and the list that \<open>scrape_tweets\<close> returns extends the
  list of every state in which the loop evaluated its condition.
\<close>

theorem accepted_append_only:
  "prefix (tweets c) (tweets (fst (process_article u (c, k) f))) \<and>
   (tweets (fst (process_article u (c, k) f)) = tweets c \<or>
    (\<exists>td. extract_tweet_data f u = Some td \<and>
          tweets (fst (process_article u (c, k) f)) = tweets c @ [td])) \<and>
   prefix (tweets c) (tweets (fst (articles_loop u c fs))) \<and>
   (scroll_cycle env u p v s = Inr s1 \<longrightarrow> prefix (tweets (seen s)) (tweets (seen s1))) \<and>
   (loop_head env u m p v n s \<and> loop_head env u m p v n' s' \<and> n \<le> n' \<longrightarrow>
      prefix (tweets (seen s)) (tweets (seen s'))) \<and>
   (timeline_loaded env \<and> loop_head env u m p v n s \<and> scrape_tweets env u m p v = Inr r \<longrightarrow>
      prefix (tweets (seen s)) r)"
proof -
  have one: "prefix (tweets c) (tweets (fst (process_article u (c, k) f)))"
    using process_article_grows [of u c k f] by (cases "process_article u (c, k) f") simp
  have shape: "tweets (fst (process_article u (c, k) f)) = tweets c \<or>
    (\<exists>td. extract_tweet_data f u = Some td \<and>
          tweets (fst (process_article u (c, k) f)) = tweets c @ [td])"
    by (auto simp: process_article_def split: option.splits)
  have pass: "prefix (tweets c) (tweets (fst (articles_loop u c fs)))"
    using articles_loop_grows [of u c fs] by (cases "articles_loop u c fs") simp
  have cyc: "prefix (tweets (seen s)) (tweets (seen s1))"
    if "scroll_cycle env u p v s = Inr s1"
    using that by (rule scroll_cycle_prefix)
  have heads: "prefix (tweets (seen s)) (tweets (seen s'))"
    if "loop_head env u m p v n s \<and> loop_head env u m p v n' s' \<and> n \<le> n'"
    using that loop_head_collected [of env u m p v n s] loop_head_collected [of env u m p v n' s']
      collected_after_prefix [of n n' env u] by simp
  have result: "prefix (tweets (seen s)) r"
    if "timeline_loaded env \<and> loop_head env u m p v n s \<and> scrape_tweets env u m p v = Inr r"
  proof -
    from that obtain sf where sf: "scroll_loop env u m p v init_session = Inr sf"
      and r: "r = tweets (seen sf)"
      by (auto simp: scrape_tweets_def split: sum.splits)
    from that have "loop_head env u m p v n s" by simp
    from loop_head_result [OF this] sf have "scroll_loop env u m p v s = Inr sf"
      by simp
    from scroll_loop_result [OF this] r show ?thesis by simp
  qed
  from one shape pass cyc heads result show ?thesis by blast
qed

theorem accepted_append_only_witness:
  "scroll_cycle (feed [''a'', ''b'']) ''alice'' (5 / 2) 1 after_a = Inr after_ab \<and>
   prefix (tweets (seen after_a)) (tweets (seen after_ab)) \<and>
   loop_head (feed [''a'', ''b'']) ''alice'' 2 (5 / 2) 1 1 after_a \<and>
   loop_head (feed [''a'', ''b'']) ''alice'' 2 (5 / 2) 1 2 after_ab \<and>
   timeline_loaded (feed [''a'', ''b'']) \<and>
   scrape_tweets (feed [''a'', ''b'']) ''alice'' 2 (5 / 2) 1 =
     Inr [plain_record ''a'', plain_record ''b''] \<and>
   prefix (tweets (seen after_a)) [plain_record ''a'', plain_record ''b'']"
proof -
  have h1: "loop_head (feed [''a'', ''b'']) ''alice'' 2 (5 / 2) 1 1 after_a"
    and h2: "loop_head (feed [''a'', ''b'']) ''alice'' 2 (5 / 2) 1 2 after_ab"
    by (rule feed_ab_heads, simp)+
  have loaded: "timeline_loaded (feed [''a'', ''b''])" by (simp add: feed_def)
  have "scroll_loop (feed [''a'', ''b'']) ''alice'' 2 (5 / 2) 1 after_ab = Inr after_ab"
    by (rule scroll_loop_done) (simp add: after_ab_def)
  with loop_head_result [OF h2]
  have "scroll_loop (feed [''a'', ''b'']) ''alice'' 2 (5 / 2) 1 init_session = Inr after_ab"
    by simp
  with loaded have res: "scrape_tweets (feed [''a'', ''b'']) ''alice'' 2 (5 / 2) 1 =
     Inr [plain_record ''a'', plain_record ''b'']"
    by (simp add: scrape_tweets_def after_ab_def)
  from accepted_append_only [where env = "feed [''a'', ''b'']" and u = "''alice''" and m = 2
      and p = "5 / 2" and v = 1 and s = after_a and ?s1.0 = after_ab and n = 1 and n' = 2
      and s' = after_ab and r = "[plain_record ''a'', plain_record ''b'']"]
    feed_ab_cycles(2) h1 h2 loaded res
  show ?thesis by simp
qed

end
